theory Spec2Isabelle
  imports Main "HOL-Library.Word" "HOL-Library.Signed_Division"
begin

unbundle bit_operations_syntax

section \<open>Go values used by the encoders\<close>

text \<open>
  Bytes and the 32-bit colour channels of \<^verbatim>\<open>color.Color.RGBA()\<close> are machine words.
  \<^verbatim>\<open>time.Duration\<close> is a signed count of nanoseconds, modelled as \<open>int\<close>.
\<close>

type_synonym byte = "8 word"
type_synonym uint32 = "32 word"
type_synonym Duration = int

text \<open>
  Go's \<^verbatim>\<open>int\<close> (pixel coordinates, slice indices, buffer lengths) is 64 bits wide on
  the 64-bit platforms considered here. Its values are the integers from \<open>-2^63\<close> up to
  \<open>2^63 - 1\<close>, and a sum, difference or product that leaves this range wraps around:
  \<open>int64 x\<close> is the value that the 64-bit result of an operation with the exact result
  \<open>x\<close> has. Every addition, subtraction and multiplication of the encoders goes
  through \<open>int64\<close>, except where it is written that the operation cannot overflow.
\<close>

definition int64 :: "int \<Rightarrow> int" where
  "int64 x = signed_take_bit 63 x"

definition is_int64 :: "int \<Rightarrow> bool" where
  "is_int64 x \<longleftrightarrow> - (2 ^ 63) \<le> x \<and> x < 2 ^ 63"

text \<open>A Go \<^verbatim>\<open>error\<close> value, identified by its message.\<close>

datatype error = Error string

text \<open>The run-time panics the encoders can raise.\<close>

datatype panic =
    SliceBoundsOutOfRange
  | IndexOutOfRange
  | MakeSliceLenOutOfRange
  | HugeOrNegativeDimensions

subsection \<open>\<^verbatim>\<open>io.Writer\<close>\<close>

text \<open>
  A writer is a state \<open>'w\<close> together with its \<^verbatim>\<open>Write\<close> method, which takes the bytes
  and returns the error (if any) and the writer's new state. The encoders ignore the
  byte count that \<^verbatim>\<open>Write\<close> returns.
\<close>

type_synonym 'w Write = "'w \<Rightarrow> byte list \<Rightarrow> error option \<times> 'w"

text \<open>\<^verbatim>\<open>bytes.Buffer\<close>: every write appends and succeeds.\<close>

definition Buffer_Write :: "byte list Write" where
  "Buffer_Write b p = (None, b @ p)"

subsection \<open>Receive-only channels\<close>

text \<open>
  What a \<^verbatim>\<open>for img := range stream\<close> loop can still receive from a channel: the channel
  is closed, or it delivers one more value and goes on. The sequence may be infinite (a
  producer that never closes the channel).
\<close>

codatatype 'a chan = Closed | Recv 'a "'a chan"

text \<open>A channel that delivers the given values and is then closed.\<close>

primrec chan_of :: "'a list \<Rightarrow> 'a chan" where
  "chan_of [] = Closed"
| "chan_of (x # xs) = Recv x (chan_of xs)"

text \<open>The values \<open>xs\<close> followed by whatever \<open>ch\<close> delivers.\<close>

primrec chan_append :: "'a list \<Rightarrow> 'a chan \<Rightarrow> 'a chan" where
  "chan_append [] ch = ch"
| "chan_append (x # xs) ch = Recv x (chan_append xs ch)"

subsection \<open>Images\<close>

record Point =
  X :: int
  Y :: int

record Rectangle =
  Min_pt :: Point
  Max_pt :: Point

definition Rect :: "int \<Rightarrow> int \<Rightarrow> int \<Rightarrow> int \<Rightarrow> Rectangle" where
  "Rect x0 y0 x1 y1 = \<lparr>Min_pt = \<lparr>X = x0, Y = y0\<rparr>, Max_pt = \<lparr>X = x1, Y = y1\<rparr>\<rparr>"

definition Dx :: "Rectangle \<Rightarrow> int" where
  "Dx r = int64 (X (Max_pt r) - X (Min_pt r))"

definition Dy :: "Rectangle \<Rightarrow> int" where
  "Dy r = int64 (Y (Max_pt r) - Y (Min_pt r))"

definition In_rect :: "int \<Rightarrow> int \<Rightarrow> Rectangle \<Rightarrow> bool" where
  "In_rect x y r \<longleftrightarrow>
     X (Min_pt r) \<le> x \<and> x < X (Max_pt r) \<and> Y (Min_pt r) \<le> y \<and> y < Y (Max_pt r)"

text \<open>The four 32-bit channels that \<^verbatim>\<open>img.At(x, y).RGBA()\<close> returns.\<close>

type_synonym rgba16 = "uint32 \<times> uint32 \<times> uint32 \<times> uint32"

text \<open>
  An \<^verbatim>\<open>image.Image\<close> is either an \<^verbatim>\<open>*image.RGBA\<close>, whose fields the encoders read
  directly after a successful type assertion, or any other implementation, known only
  through \<^verbatim>\<open>Bounds\<close> and \<^verbatim>\<open>At\<close>.
\<close>

datatype Image =
    RGBA (Pix: "byte list") (Stride: int) (Rect_of: Rectangle)
  | Generic (Bounds_of: Rectangle) (At_of: "int \<Rightarrow> int \<Rightarrow> rgba16")

fun Bounds :: "Image \<Rightarrow> Rectangle" where
  "Bounds (RGBA pix stride r) = r"
| "Bounds (Generic r at) = r"

subsection \<open>Loops, slices and formatted output\<close>

text \<open>
  \<^verbatim>\<open>for i := lo; i < hi; i++ { body }\<close> over a state \<open>'b\<close>; a panic in the body ends
  the loop. The increment is made only when \<open>i < hi\<close>, so it cannot overflow.
\<close>

function for_range :: "(int \<Rightarrow> 'b \<Rightarrow> panic + 'b) \<Rightarrow> int \<Rightarrow> int \<Rightarrow> 'b \<Rightarrow> panic + 'b" where
  "for_range body i hi s =
     (if i < hi then
        (case body i s of
           Inl p \<Rightarrow> Inl p
         | Inr s' \<Rightarrow> for_range body (i + 1) hi s')
      else Inr s)"
  by pat_completeness auto
termination
  by (relation "measure (\<lambda>(body, i, hi, s). nat (hi - i))") auto

declare for_range.simps [simp del]

text \<open>
  \<^verbatim>\<open>for img := range stream { body }\<close>, where the body either goes on with a new
  state or returns an error. The loop need not end: \<open>None\<close> is the run that never
  returns. A finished run gives the panic, or the returned error (\<open>None\<close> for
  \<^verbatim>\<open>nil\<close>), the state, and what the loop has left in the channel.
\<close>

partial_function (option) range_loop ::
  "('s \<Rightarrow> 'a \<Rightarrow> panic + (error option \<times> 's)) \<Rightarrow> 's \<Rightarrow> 'a chan \<Rightarrow>
   (panic + (error option \<times> 's \<times> 'a chan)) option"
where
  "range_loop body s stream =
     (case stream of
        Closed \<Rightarrow> Some (Inr (None, s, Closed))
      | Recv img rest \<Rightarrow>
          (case body s img of
             Inl p \<Rightarrow> Some (Inl p)
           | Inr (Some err, s') \<Rightarrow> Some (Inr (Some err, s', rest))
           | Inr (None, s') \<Rightarrow> range_loop body s' rest))"

declare range_loop.simps [code]

text \<open>
  A slice expression \<^verbatim>\<open>xs[lo:hi]\<close> is in range when \<open>0 \<le> lo \<le> hi \<le> cap(xs)\<close>; the
  slices of the model have their capacity equal to their length, as those made by
  \<^verbatim>\<open>make\<close> and \<^verbatim>\<open>image.NewRGBA\<close> have.
\<close>

definition slice_ok :: "'a list \<Rightarrow> int \<Rightarrow> int \<Rightarrow> bool" where
  "slice_ok xs lo hi \<longleftrightarrow> 0 \<le> lo \<and> lo \<le> hi \<and> hi \<le> int (length xs)"

definition slice :: "'a list \<Rightarrow> int \<Rightarrow> int \<Rightarrow> 'a list" where
  "slice xs lo hi = take (nat (hi - lo)) (drop (nat lo) xs)"

definition index_ok :: "'a list \<Rightarrow> int \<Rightarrow> bool" where
  "index_ok xs i \<longleftrightarrow> 0 \<le> i \<and> i < int (length xs)"

text \<open>\<^verbatim>\<open>copy(dst[lo:lo+len(src)], src)\<close> for slices that are in range.\<close>

definition copy_at :: "'a list \<Rightarrow> int \<Rightarrow> 'a list \<Rightarrow> 'a list" where
  "copy_at dst lo src = take (nat lo) dst @ src @ drop (nat lo + length src) dst"

text \<open>\<^verbatim>\<open>xs[i] = v\<close>, which panics out of range.\<close>

definition store :: "'a list \<Rightarrow> int \<Rightarrow> 'a \<Rightarrow> panic + 'a list" where
  "store xs i v = (if index_ok xs i then Inr (xs[nat i := v]) else Inl IndexOutOfRange)"

text \<open>
  \<^verbatim>\<open>make([]byte, n)\<close> panics when \<open>n\<close> is negative or more than \<^verbatim>\<open>maxAlloc\<close>, the
  run-time's limit on the size of one allocation: \<open>2^48\<close> bytes on the 64-bit platforms.
  Below the limit the allocation is taken to succeed; a machine that runs out of memory
  is not modelled.
\<close>

definition maxAlloc :: int where
  "maxAlloc = 2 ^ 48"

definition make_bytes :: "int \<Rightarrow> panic + byte list" where
  "make_bytes n =
     (if n < 0 \<or> maxAlloc < n then Inl MakeSliceLenOutOfRange else Inr (replicate (nat n) 0))"

text \<open>The bytes of a string literal, and \<^verbatim>\<open>%d\<close> of an unsigned number.\<close>

definition bytes_of :: "string \<Rightarrow> byte list" where
  "bytes_of s = map of_char s"

fun decimal :: "nat \<Rightarrow> string" where
  "decimal n =
     (if n < 10 then [char_of (48 + n)]
      else decimal (n div 10) @ [char_of (48 + n mod 10)])"

declare decimal.simps [simp del]

definition ESC :: char where
  "ESC = CHR 0x1B"

subsection \<open>Reading pixels\<close>

text \<open>
  \<^verbatim>\<open>color.RGBA.RGBA()\<close> widens an 8-bit channel \<open>c\<close> to 16 bits:
  \<^verbatim>\<open>r = uint32(c.R); r |= r << 8\<close>.
\<close>

definition widen :: "byte \<Rightarrow> uint32" where
  "widen c = (let v = (ucast c :: uint32) in v OR push_bit 8 v)"

text \<open>
  \<^verbatim>\<open>img.At(x, y).RGBA()\<close>. For an \<^verbatim>\<open>*image.RGBA\<close> this is the library's \<^verbatim>\<open>RGBAAt\<close>:
  transparent black outside the rectangle, otherwise the four bytes at
  \<^verbatim>\<open>PixOffset(x, y) = (y-p.Rect.Min.Y)*p.Stride + (x-p.Rect.Min.X)*4\<close>, read through
  the slice expression \<^verbatim>\<open>p.Pix[i : i+4 : i+4]\<close>.
\<close>

definition PixOffset :: "int \<Rightarrow> Rectangle \<Rightarrow> int \<Rightarrow> int \<Rightarrow> int" where
  "PixOffset stride r x y =
     int64 (int64 (int64 (y - Y (Min_pt r)) * stride) + int64 (int64 (x - X (Min_pt r)) * 4))"

fun At :: "Image \<Rightarrow> int \<Rightarrow> int \<Rightarrow> panic + rgba16" where
  "At (RGBA pix stride r) x y =
     (if \<not> In_rect x y r then Inr (0, 0, 0, 0)
      else
        let i = PixOffset stride r x y in
        if \<not> slice_ok pix i (int64 (i + 4)) then Inl SliceBoundsOutOfRange
        else Inr (widen (pix ! nat i), widen (pix ! nat (i + 1)),
                  widen (pix ! nat (i + 2)), widen (pix ! nat (i + 3))))"
| "At (Generic r at) x y = Inr (at x y)"

section \<open>Library codecs: PNG and JPEG\<close>

text \<open>
  \<^verbatim>\<open>png.Encode\<close> and \<^verbatim>\<open>jpeg.Encode\<close> are library code. A codec is a parameter of the
  model: for an image it either refuses it with an error before writing anything, or
  produces the chunks that it hands to the writer one \<^verbatim>\<open>Write\<close> after the other,
  stopping at the first \<^verbatim>\<open>Write\<close> that fails.
\<close>

type_synonym codec = "Image \<Rightarrow> error + byte list list"

fun write_chunks :: "'w Write \<Rightarrow> 'w \<Rightarrow> byte list list \<Rightarrow> error option \<times> 'w" where
  "write_chunks Write w [] = (None, w)"
| "write_chunks Write w (c # cs) =
     (case Write w c of
        (Some err, w') \<Rightarrow> (Some err, w')
      | (None, w') \<Rightarrow> write_chunks Write w' cs)"

definition codec_Encode :: "codec \<Rightarrow> 'w Write \<Rightarrow> 'w \<Rightarrow> Image \<Rightarrow> error option \<times> 'w" where
  "codec_Encode c Write w img =
     (case c img of
        Inl err \<Rightarrow> (Some err, w)
      | Inr chunks \<Rightarrow> write_chunks Write w chunks)"

definition PNGFormat_Encode ::
  "codec \<Rightarrow> 'w Write \<Rightarrow> 'w \<Rightarrow> Image \<Rightarrow> panic + (error option \<times> 'w)" where
  "PNGFormat_Encode png Write w img = Inr (codec_Encode png Write w img)"

definition PNGFormat_EncodeAnimation ::
  "codec \<Rightarrow> 'w Write \<Rightarrow> 'w \<Rightarrow> Image chan \<Rightarrow> Duration \<Rightarrow>
   (panic + (error option \<times> 'w \<times> Image chan)) option" where
  "PNGFormat_EncodeAnimation png Write w stream interval =
     range_loop (PNGFormat_Encode png Write) w stream"

definition JPGFormat_Encode ::
  "codec \<Rightarrow> 'w Write \<Rightarrow> 'w \<Rightarrow> Image \<Rightarrow> panic + (error option \<times> 'w)" where
  "JPGFormat_Encode jpeg Write w img = Inr (codec_Encode jpeg Write w img)"

definition JPGFormat_EncodeAnimation ::
  "codec \<Rightarrow> 'w Write \<Rightarrow> 'w \<Rightarrow> Image chan \<Rightarrow> Duration \<Rightarrow>
   (panic + (error option \<times> 'w \<times> Image chan)) option" where
  "JPGFormat_EncodeAnimation jpeg Write w stream interval =
     range_loop (JPGFormat_Encode jpeg Write) w stream"

section \<open>Raw RGB24\<close>

text \<open>
  The body of the inner loop for an \<^verbatim>\<open>*image.RGBA\<close>:
  \<^verbatim>\<open>copy(buf[i*3:i*3+3], rgba.Pix[i*4:i*4+3])\<close>. Both slice expressions are evaluated,
  the destination first, before the copy.
\<close>

definition RGB24_copy_pixel :: "byte list \<Rightarrow> int \<Rightarrow> byte list \<Rightarrow> panic + byte list" where
  "RGB24_copy_pixel pix i buf =
     (if \<not> slice_ok buf (int64 (i * 3)) (int64 (int64 (i * 3) + 3))
      then Inl SliceBoundsOutOfRange
      else if \<not> slice_ok pix (int64 (i * 4)) (int64 (int64 (i * 4) + 3))
      then Inl SliceBoundsOutOfRange
      else Inr (copy_at buf (int64 (i * 3))
                  (slice pix (int64 (i * 4)) (int64 (int64 (i * 4) + 3)))))"

text \<open>
  The body of the inner loop for any other image: the three stores of
  \<^verbatim>\<open>byte(r >> 8)\<close>, \<^verbatim>\<open>byte(g >> 8)\<close>, \<^verbatim>\<open>byte(b >> 8)\<close>.
\<close>

definition RGB24_store_pixel :: "rgba16 \<Rightarrow> int \<Rightarrow> byte list \<Rightarrow> panic + byte list" where
  "RGB24_store_pixel c i buf =
     (case c of (r, g, b, a) \<Rightarrow>
        (case store buf (int64 (i * 3)) (ucast (drop_bit 8 r)) of
           Inl p \<Rightarrow> Inl p
         | Inr buf1 \<Rightarrow>
             (case store buf1 (int64 (int64 (i * 3) + 1)) (ucast (drop_bit 8 g)) of
                Inl p \<Rightarrow> Inl p
              | Inr buf2 \<Rightarrow> store buf2 (int64 (int64 (i * 3) + 2)) (ucast (drop_bit 8 b)))))"

text \<open>
  The type switch and, in each branch, the two nested loops over the bounds, with
  \<^verbatim>\<open>i := y*bounds.Dx() + x\<close>.
\<close>

definition RGB24_fill :: "Image \<Rightarrow> byte list \<Rightarrow> panic + byte list" where
  "RGB24_fill img buf =
     (let bounds = Bounds img in
      case img of
        RGBA pix stride r \<Rightarrow>
          for_range
            (\<lambda>y. for_range (\<lambda>x. RGB24_copy_pixel pix (int64 (int64 (y * Dx bounds) + x)))
                    (X (Min_pt bounds)) (X (Max_pt bounds)))
            (Y (Min_pt bounds)) (Y (Max_pt bounds)) buf
      | Generic r at \<Rightarrow>
          for_range
            (\<lambda>y. for_range (\<lambda>x. RGB24_store_pixel (at x y) (int64 (int64 (y * Dx bounds) + x)))
                    (X (Min_pt bounds)) (X (Max_pt bounds)))
            (Y (Min_pt bounds)) (Y (Max_pt bounds)) buf)"

definition RGB24Format_Encode :: "'w Write \<Rightarrow> 'w \<Rightarrow> Image \<Rightarrow> panic + (error option \<times> 'w)" where
  "RGB24Format_Encode Write w img =
     (let bounds = Bounds img in
      case make_bytes (int64 (int64 (Dx bounds * Dy bounds) * 3)) of
        Inl p \<Rightarrow> Inl p
      | Inr buf \<Rightarrow>
          (case RGB24_fill img buf of
             Inl p \<Rightarrow> Inl p
           | Inr buf' \<Rightarrow> Inr (Write w buf')))"

definition RGB24Format_EncodeAnimation ::
  "'w Write \<Rightarrow> 'w \<Rightarrow> Image chan \<Rightarrow> Duration \<Rightarrow>
   (panic + (error option \<times> 'w \<times> Image chan)) option" where
  "RGB24Format_EncodeAnimation Write w stream interval =
     range_loop (RGB24Format_Encode Write) w stream"

section \<open>Raw RGBA32\<close>

text \<open>
  \<^verbatim>\<open>image.NewRGBA(r)\<close>: a zeroed buffer of \<open>4 * Dx * Dy\<close> bytes with stride \<open>4 * Dx\<close>.
  The library computes the length with \<^verbatim>\<open>mul3NonNeg(4, r.Dx(), r.Dy())\<close>, which
  multiplies in 128 bits and gives \<open>-1\<close> when a factor is negative, when \<open>4 * Dx\<close> does
  not fit 64 unsigned bits, or when the product does not fit an \<^verbatim>\<open>int\<close>; then
  \<^verbatim>\<open>NewRGBA\<close> panics with ``huge or negative dimensions''. Otherwise the buffer is made
  by \<^verbatim>\<open>make\<close>.
\<close>

definition mul3NonNeg :: "int \<Rightarrow> int \<Rightarrow> int \<Rightarrow> int" where
  "mul3NonNeg x y z =
     (if x < 0 \<or> y < 0 \<or> z < 0 then - 1
      else if 2 ^ 64 \<le> x * y then - 1
      else if 2 ^ 63 \<le> x * y * z then - 1
      else x * y * z)"

definition NewRGBA :: "Rectangle \<Rightarrow> panic + Image" where
  "NewRGBA r =
     (let totalLength = mul3NonNeg 4 (Dx r) (Dy r) in
      if totalLength < 0 then Inl HugeOrNegativeDimensions
      else
        (case make_bytes totalLength of
           Inl p \<Rightarrow> Inl p
         | Inr pix \<Rightarrow> Inr (RGBA pix (int64 (4 * Dx r)) r)))"

text \<open>
  \<^verbatim>\<open>draw.Draw(dst, r, src, sp, draw.Over)\<close> of \<^verbatim>\<open>image/draw\<close> for an \<^verbatim>\<open>*image.RGBA\<close>
  destination and no mask. The rectangle is clipped to the destination and to the
  source moved by \<open>r.Min - sp\<close>; every remaining pixel gets the source colour
  composited over it, channel by channel:
  \<^verbatim>\<open>a := (m - (sa * ma / m)) * 0x101; d = uint8((d*a + s*ma) / m >> 8)\<close> with
  \<open>ma = m = 0xffff\<close>. The encoders draw to no other kind of destination.
\<close>

definition Empty_rect :: "Rectangle \<Rightarrow> bool" where
  "Empty_rect r \<longleftrightarrow> X (Min_pt r) \<ge> X (Max_pt r) \<or> Y (Min_pt r) \<ge> Y (Max_pt r)"

definition Intersect :: "Rectangle \<Rightarrow> Rectangle \<Rightarrow> Rectangle" where
  "Intersect r s =
     (let r' = Rect (max (X (Min_pt r)) (X (Min_pt s))) (max (Y (Min_pt r)) (Y (Min_pt s)))
                    (min (X (Max_pt r)) (X (Max_pt s))) (min (Y (Max_pt r)) (Y (Max_pt s)))
      in if Empty_rect r' then Rect 0 0 0 0 else r')"

definition Add_rect :: "Rectangle \<Rightarrow> int \<Rightarrow> int \<Rightarrow> Rectangle" where
  "Add_rect r dx dy =
     Rect (int64 (X (Min_pt r) + dx)) (int64 (Y (Min_pt r) + dy))
          (int64 (X (Max_pt r) + dx)) (int64 (Y (Max_pt r) + dy))"

definition over :: "byte \<Rightarrow> uint32 \<Rightarrow> uint32 \<Rightarrow> byte" where
  "over d s sa =
     (let m = (0xffff :: uint32); a = (m - (sa * m div m)) * 0x101
      in ucast (drop_bit 8 ((ucast d * a + s * m) div m)))"

definition Draw_pixel ::
  "Image \<Rightarrow> int \<Rightarrow> int \<Rightarrow> int \<Rightarrow> byte list \<Rightarrow> panic + byte list" where
  "Draw_pixel src sx sy i pix =
     (case At src sx sy of
        Inl p \<Rightarrow> Inl p
      | Inr (sr, sg, sb, sa) \<Rightarrow>
          if \<not> slice_ok pix i (int64 (i + 4)) then Inl SliceBoundsOutOfRange
          else Inr (copy_at pix i
                 [over (pix ! nat i) sr sa, over (pix ! nat (i + 1)) sg sa,
                  over (pix ! nat (i + 2)) sb sa, over (pix ! nat (i + 3)) sa sa]))"

definition Draw_Over :: "Image \<Rightarrow> Rectangle \<Rightarrow> Image \<Rightarrow> Point \<Rightarrow> panic + Image" where
  "Draw_Over dst r src sp =
     (case dst of
        Generic b at \<Rightarrow> Inr dst
      | RGBA pix stride dr \<Rightarrow>
          let orig = Min_pt r;
              r1 = Intersect r dr;
              r2 = Intersect r1 (Add_rect (Bounds src) (int64 (X orig - X sp))
                                          (int64 (Y orig - Y sp)))
          in
          (case for_range
                  (\<lambda>y. for_range
                          (\<lambda>x. Draw_pixel src (int64 (int64 (X sp + x) - X orig))
                                  (int64 (int64 (Y sp + y) - Y orig))
                                  (PixOffset stride dr x y))
                          (X (Min_pt r2)) (X (Max_pt r2)))
                  (Y (Min_pt r2)) (Y (Max_pt r2)) pix of
             Inl p \<Rightarrow> Inl p
           | Inr pix' \<Rightarrow> Inr (RGBA pix' stride dr)))"

definition RGBA32Format_Encode :: "'w Write \<Rightarrow> 'w \<Rightarrow> Image \<Rightarrow> panic + (error option \<times> 'w)" where
  "RGBA32Format_Encode Write w img =
     (case img of
        RGBA pix stride r \<Rightarrow> Inr (Write w pix)
      | Generic b at \<Rightarrow>
          (case NewRGBA (Bounds img) of
             Inl p \<Rightarrow> Inl p
           | Inr rgbaImg \<Rightarrow>
               (case Draw_Over rgbaImg (Bounds img) img \<lparr>X = 0, Y = 0\<rparr> of
                  Inl p \<Rightarrow> Inl p
                | Inr rgbaImg' \<Rightarrow> Inr (Write w (Pix rgbaImg')))))"

definition RGBA32Format_EncodeAnimation ::
  "'w Write \<Rightarrow> 'w \<Rightarrow> Image chan \<Rightarrow> Duration \<Rightarrow>
   (panic + (error option \<times> 'w \<times> Image chan)) option" where
  "RGBA32Format_EncodeAnimation Write w stream interval =
     range_loop (RGBA32Format_Encode Write) w stream"

section \<open>Terminal display\<close>

text \<open>The encoder's only field records whether the screen has been cleared.\<close>

record AnsiDisplay =
  initDone :: bool

definition clear_sequence :: "byte list" where
  "clear_sequence = bytes_of ([ESC] @ ''[3J'' @ [ESC] @ ''[H'' @ [ESC] @ ''[2J'')"

definition home_sequence :: "byte list" where
  "home_sequence = bytes_of ([ESC] @ ''[1;1H'')"

text \<open>\<^verbatim>\<open>"\x1b[38;2;%d;%d;%dm"\<close> and \<^verbatim>\<open>"\x1b[48;2;%d;%d;%dm"\<close>.\<close>

definition fg_escape :: "uint32 \<Rightarrow> uint32 \<Rightarrow> uint32 \<Rightarrow> byte list" where
  "fg_escape r g b =
     bytes_of ([ESC] @ ''[38;2;'' @ decimal (unat r) @ '';'' @ decimal (unat g) @ '';''
               @ decimal (unat b) @ ''m'')"

definition bg_escape :: "uint32 \<Rightarrow> uint32 \<Rightarrow> uint32 \<Rightarrow> byte list" where
  "bg_escape r g b =
     bytes_of ([ESC] @ ''[48;2;'' @ decimal (unat r) @ '';'' @ decimal (unat g) @ '';''
               @ decimal (unat b) @ ''m'')"

text \<open>The literal written when the last row has no partner: \<^verbatim>\<open>"\x1b[48;2;0m"\<close>.\<close>

definition bg_missing :: "byte list" where
  "bg_missing = bytes_of ([ESC] @ ''[48;2;0m'')"

text \<open>The UTF-8 encoding of U+2580, the upper half block.\<close>

definition upper_half_block :: "byte list" where
  "upper_half_block = [0xE2, 0x96, 0x80]"

definition reset_newline :: "byte list" where
  "reset_newline = bytes_of ([ESC] @ ''[0m'' @ [CHR 0x0A])"

text \<open>One character cell: the body of the loop over \<open>x\<close>.\<close>

definition AnsiDisplay_cell :: "Image \<Rightarrow> int \<Rightarrow> int \<Rightarrow> byte list \<Rightarrow> panic + byte list" where
  "AnsiDisplay_cell img y x buf =
     (case At img x (int64 (y * 2)) of
        Inl p \<Rightarrow> Inl p
      | Inr (r, g, b, a) \<Rightarrow>
          let buf1 = buf @ fg_escape (r div 256) (g div 256) (b div 256) in
          (case (if int64 (int64 (y * 2) + 1) < Dy (Bounds img) then
                   (case At img x (int64 (int64 (y * 2) + 1)) of
                      Inl p \<Rightarrow> Inl p
                    | Inr (r, g, b, a) \<Rightarrow>
                        Inr (buf1 @ bg_escape (r div 256) (g div 256) (b div 256)))
                 else Inr (buf1 @ bg_missing)) of
             Inl p \<Rightarrow> Inl p
           | Inr buf2 \<Rightarrow> Inr (buf2 @ upper_half_block)))"

text \<open>One output row: the body of the loop over \<open>y\<close>.\<close>

definition AnsiDisplay_row :: "Image \<Rightarrow> int \<Rightarrow> int \<Rightarrow> byte list \<Rightarrow> panic + byte list" where
  "AnsiDisplay_row img width y buf =
     (case for_range (AnsiDisplay_cell img y) 0 width buf of
        Inl p \<Rightarrow> Inl p
      | Inr buf' \<Rightarrow> Inr (buf' @ reset_newline))"

text \<open>
  The body of the loop over the stream, on the encoder \<open>f\<close> (reached through the
  pointer receiver) and the writer. \<^verbatim>\<open>io.Copy\<close> from a \<^verbatim>\<open>bytes.Buffer\<close> hands the
  whole frame to the writer in one \<^verbatim>\<open>Write\<close>. The pacing sleep at the end of the body
  changes no value and is left out.
\<close>

definition AnsiDisplay_frame ::
  "'w Write \<Rightarrow> AnsiDisplay \<times> 'w \<Rightarrow> Image \<Rightarrow> panic + (error option \<times> (AnsiDisplay \<times> 'w))" where
  "AnsiDisplay_frame Write = (\<lambda>(f, w) img.
     let width = Dx (Bounds img); height = Dy (Bounds img);
         buf = (if \<not> initDone f then clear_sequence else home_sequence);
         f' = (if \<not> initDone f then f\<lparr>initDone := True\<rparr> else f)
     in
     (case for_range (AnsiDisplay_row img width) 0
             (int64 (height sdiv 2 + (height AND 1))) buf of
        Inl p \<Rightarrow> Inl p
      | Inr buf' \<Rightarrow> (case Write w buf' of (err, w') \<Rightarrow> Inr (err, (f', w')))))"

text \<open>
  \<^verbatim>\<open>func (f *AnsiDisplay) EncodeAnimation\<close>: the encoder is updated in place, so the
  result carries its new state.
\<close>

definition AnsiDisplay_EncodeAnimation ::
  "'w Write \<Rightarrow> AnsiDisplay \<Rightarrow> 'w \<Rightarrow> Image chan \<Rightarrow> Duration \<Rightarrow>
   (panic + (error option \<times> (AnsiDisplay \<times> 'w) \<times> Image chan)) option" where
  "AnsiDisplay_EncodeAnimation Write f w stream interval =
     range_loop (AnsiDisplay_frame Write) (f, w) stream"

text \<open>
  \<^verbatim>\<open>func (f AnsiDisplay) Encode\<close> has a value receiver: \<open>f\<close> is a copy of the caller's
  encoder, \<^verbatim>\<open>f.EncodeAnimation\<close> takes the address of that copy, and the copy is dropped
  on return. The caller's encoder is the one that was passed in.
\<close>

definition AnsiDisplay_Encode ::
  "'w Write \<Rightarrow> AnsiDisplay \<Rightarrow> 'w \<Rightarrow> Image \<Rightarrow>
   (panic + (error option \<times> (AnsiDisplay \<times> 'w))) option" where
  "AnsiDisplay_Encode Write f w img =
     (case AnsiDisplay_EncodeAnimation Write f w (chan_of [img]) 0 of
        None \<Rightarrow> None
      | Some (Inl p) \<Rightarrow> Some (Inl p)
      | Some (Inr (err, (f_copy, w'), rest)) \<Rightarrow> Some (Inr (err, (f, w'))))"

section \<open>GIF\<close>

text \<open>
  \<^verbatim>\<open>gif.GIF\<close>, with the palettised frames of type \<open>'p\<close>. In \<^verbatim>\<open>image/gif\<close> a
  \<^verbatim>\<open>LoopCount\<close> of 0 means that the animation loops forever, and \<^verbatim>\<open>-1\<close> that it is shown
  once.
\<close>

record 'p GIF =
  Image :: "'p list"
  Delay :: "int list"
  LoopCount :: int
  Disposal :: "byte list"
  BackgroundIndex :: byte

definition DisposalBackground :: byte where
  "DisposalBackground = 2"

definition Second :: Duration where
  "Second = 1000000000"

definition Millisecond :: Duration where
  "Millisecond = 1000000"

text \<open>
  The delay of one frame, \<^verbatim>\<open>int(interval/(time.Second/100))\<close>. Go's integer division
  truncates towards zero, which is \<open>sdiv\<close> on \<open>int\<close>.
\<close>

definition gif_delay :: "Duration \<Rightarrow> int" where
  "gif_delay interval = interval sdiv (Second sdiv 100)"

text \<open>
  The loop of \<^verbatim>\<open>GIFFormat.EncodeAnimation\<close>. The parameter \<open>toPaletted\<close> stands for
  \<^verbatim>\<open>image.NewPaletted(img.Bounds(), palette.Plan9)\<close> followed by \<^verbatim>\<open>draw.Draw\<close>, which
  is library code; it panics on a rectangle of negative dimensions.
\<close>

partial_function (option) GIFFormat_collect ::
  "(Image \<Rightarrow> panic + 'p) \<Rightarrow> Duration \<Rightarrow> 'p GIF \<Rightarrow> Image chan \<Rightarrow> (panic + 'p GIF) option"
where
  "GIFFormat_collect toPaletted interval gifImg stream =
     (case stream of
        Closed \<Rightarrow> Some (Inr gifImg)
      | Recv img rest \<Rightarrow>
          (case toPaletted img of
             Inl p \<Rightarrow> Some (Inl p)
           | Inr frame \<Rightarrow>
               GIFFormat_collect toPaletted interval
                 (gifImg\<lparr>Image := Image gifImg @ [frame],
                         Delay := Delay gifImg @ [gif_delay interval],
                         Disposal := Disposal gifImg @ [DisposalBackground]\<rparr>)
                 rest))"

declare GIFFormat_collect.simps [code]

text \<open>
  \<^verbatim>\<open>GIFFormat.EncodeAnimation\<close>; \<open>EncodeAll\<close> stands for \<^verbatim>\<open>gif.EncodeAll\<close>. The result
  is \<open>None\<close> when the loop never ends, otherwise the panic, or the returned error, the
  writer and what is left in the channel.
\<close>

definition GIFFormat_EncodeAnimation ::
  "(Image \<Rightarrow> panic + 'p) \<Rightarrow> ('w \<Rightarrow> 'p GIF \<Rightarrow> error option \<times> 'w) \<Rightarrow>
   'w \<Rightarrow> Image chan \<Rightarrow> Duration \<Rightarrow> (panic + (error option \<times> 'w \<times> Image chan)) option"
where
  "GIFFormat_EncodeAnimation toPaletted EncodeAll w stream interval =
     (case GIFFormat_collect toPaletted interval
             \<lparr>Image = [], Delay = [], LoopCount = 0, Disposal = [], BackgroundIndex = 0\<rparr> stream of
        None \<Rightarrow> None
      | Some (Inl p) \<Rightarrow> Some (Inl p)
      | Some (Inr gifImg) \<Rightarrow>
          (case EncodeAll w gifImg of (err, w') \<Rightarrow> Some (Inr (err, w', Closed))))"

text \<open>\<^verbatim>\<open>GIFFormat.Encode\<close>: a one-frame channel, closed, and interval 0.\<close>

definition GIFFormat_Encode ::
  "(Image \<Rightarrow> panic + 'p) \<Rightarrow> ('w \<Rightarrow> 'p GIF \<Rightarrow> error option \<times> 'w) \<Rightarrow>
   'w \<Rightarrow> Image \<Rightarrow> (panic + (error option \<times> 'w \<times> Image chan)) option"
where
  "GIFFormat_Encode toPaletted EncodeAll w img =
     GIFFormat_EncodeAnimation toPaletted EncodeAll w (chan_of [img]) 0"

section \<open>Resource providers\<close>

text \<open>
  The channels \<open>closed\<close> and \<open>loopClosed\<close> of a provider carry no values: they are only
  ever closed and received from. A receive returns once the channel is closed; on an
  open channel without sender, and on a \<^verbatim>\<open>nil\<close> channel, it blocks.
\<close>

datatype signal_chan = NilChan | OpenChan | ClosedChan

text \<open>Where a call of \<^verbatim>\<open>Close\<close> stands.\<close>

datatype close_pc = Close_entry | Close_waiting | Close_returned

subsection \<open>The networked IMU sensor\<close>

text \<open>
  One reading. The \<^verbatim>\<open>float32\<close> components are only stored and copied, never
  computed with, so their type is a parameter \<open>'f\<close> with a zero.
\<close>

record 'f imuDataType =
  Acceleration :: "'f \<times> 'f \<times> 'f"
  Gyro :: "'f \<times> 'f \<times> 'f"
  Magnetometer :: "'f \<times> 'f \<times> 'f"
  Quaternione :: "'f \<times> 'f \<times> 'f \<times> 'f"
  Shake :: bool

text \<open>The zero value of the struct.\<close>

definition zero_imuDataType :: "'f::zero imuDataType" where
  "zero_imuDataType =
     \<lparr>Acceleration = (0, 0, 0), Gyro = (0, 0, 0), Magnetometer = (0, 0, 0),
      Quaternione = (0, 0, 0, 0), Shake = False\<rparr>"

record 'f IMU_values =
  uniformNamePrefix :: string
  url :: string
  currentValue :: "'f imuDataType"
  closed :: signal_chan
  loopClosed :: signal_chan

text \<open>
  What the endpoint does to one \<^verbatim>\<open>getJson\<close> call is a parameter: the request fails,
  or there is a body, whose decoding updates the target and may fail half-way.
\<close>

datatype 'f response =
    Unreachable error
  | Body "'f imuDataType \<Rightarrow> error option \<times> 'f imuDataType"

fun getJson :: "'f response \<Rightarrow> 'f imuDataType \<Rightarrow> error option \<times> 'f imuDataType" where
  "getJson (Unreachable err) target = (Some err, target)"
| "getJson (Body decode) target = decode target"

text \<open>
  \<^verbatim>\<open>newIMUPeripheral\<close>, up to the start of the background goroutine. \<open>failSilent\<close> is
  declared and never set.
\<close>

definition newIMUPeripheral :: "string \<Rightarrow> string \<Rightarrow> 'f response \<Rightarrow> error + ('f::zero) IMU_values" where
  "newIMUPeripheral prefix address resp =
     (let failSilent = False;
          imu = \<lparr>uniformNamePrefix = prefix, url = address, currentValue = zero_imuDataType,
                 closed = NilChan, loopClosed = NilChan\<rparr>
      in case getJson resp (currentValue imu) of
           (err, v) \<Rightarrow>
             (case err of
                Some e \<Rightarrow>
                  if \<not> failSilent then Inl e
                  else Inr (imu\<lparr>currentValue := v, closed := OpenChan, loopClosed := OpenChan\<rparr>)
              | None \<Rightarrow>
                  Inr (imu\<lparr>currentValue := v, closed := OpenChan, loopClosed := OpenChan\<rparr>)))"

text \<open>
  One iteration of the goroutine's \<^verbatim>\<open>for\<close> loop, on its local \<open>imuReading\<close> (allocated
  once, before the loop) and the provider: fetch into \<open>imuReading\<close>; on success copy it
  to \<open>currentValue\<close>, which the code does between \<^verbatim>\<open>Lock\<close> and \<^verbatim>\<open>Unlock\<close> of
  \<open>currentValueLock\<close>; sleep. The loop has no exit and reads neither channel.
\<close>

definition poll ::
  "'f response \<Rightarrow> 'f imuDataType \<times> 'f IMU_values \<Rightarrow> 'f imuDataType \<times> 'f IMU_values" where
  "poll resp = (\<lambda>(imuReading, imu).
     case getJson resp imuReading of
       (err, imuReading') \<Rightarrow>
         (imuReading', if err = None then imu\<lparr>currentValue := imuReading'\<rparr> else imu))"

text \<open>
  The provider together with its goroutine and one caller of \<^verbatim>\<open>Close\<close>. The two run
  concurrently; a schedule is the list of their steps in the order they happen.
\<close>

record 'f IMU_system =
  imu :: "'f IMU_values"
  imuReading :: "'f imuDataType"
  close_at :: close_pc

datatype 'f IMU_event = Poll "'f response" | Close_step

text \<open>
  \<^verbatim>\<open>IMU_values.Close\<close>, one step at a time: return at once if \<open>closed\<close> is \<^verbatim>\<open>nil\<close>, else
  \<^verbatim>\<open>close(imu.closed)\<close>; then \<^verbatim>\<open><-imu.loopClosed\<close>, which can only be passed once
  \<open>loopClosed\<close> is closed; then return.
\<close>

definition IMU_Close_step :: "'f IMU_system \<Rightarrow> 'f IMU_system" where
  "IMU_Close_step s =
     (case close_at s of
        Close_entry \<Rightarrow>
          if closed (imu s) = NilChan then s\<lparr>close_at := Close_returned\<rparr>
          else s\<lparr>imu := (imu s)\<lparr>closed := ClosedChan\<rparr>, close_at := Close_waiting\<rparr>
      | Close_waiting \<Rightarrow>
          if loopClosed (imu s) = ClosedChan then s\<lparr>close_at := Close_returned\<rparr> else s
      | Close_returned \<Rightarrow> s)"

fun IMU_step :: "'f IMU_event \<Rightarrow> 'f IMU_system \<Rightarrow> 'f IMU_system" where
  "IMU_step (Poll resp) s =
     (case poll resp (imuReading s, imu s) of
        (r, i) \<Rightarrow> s\<lparr>imuReading := r, imu := i\<rparr>)"
| "IMU_step Close_step s = IMU_Close_step s"

definition IMU_run :: "'f IMU_event list \<Rightarrow> 'f IMU_system \<Rightarrow> 'f IMU_system" where
  "IMU_run schedule s = fold IMU_step schedule s"

text \<open>The system right after a successful construction, with \<^verbatim>\<open>Close\<close> about to be called.\<close>

definition IMU_started :: "('f::zero) IMU_values \<Rightarrow> 'f IMU_system" where
  "IMU_started i = \<lparr>imu = i, imuReading = zero_imuDataType, close_at = Close_entry\<rparr>"

subsection \<open>The snapshot under its lock\<close>

text \<open>
  The loop's copy \<^verbatim>\<open>imu.currentValue = *imuReading\<close> and the reads of \<^verbatim>\<open>PreRender\<close> are
  not single memory accesses, so here they go field by field, in the order of the
  struct and of \<^verbatim>\<open>PreRender\<close>'s statements, each between \<^verbatim>\<open>Lock\<close> and \<^verbatim>\<open>Unlock\<close> of
  \<open>currentValueLock\<close>, and the two goroutines are interleaved by a schedule.
\<close>

datatype field = F_Acceleration | F_Gyro | F_Magnetometer | F_Quaternione | F_Shake

fun copy_field :: "field \<Rightarrow> 'f imuDataType \<Rightarrow> 'f imuDataType \<Rightarrow> 'f imuDataType" where
  "copy_field F_Acceleration src dst = dst\<lparr>Acceleration := Acceleration src\<rparr>"
| "copy_field F_Gyro src dst = dst\<lparr>Gyro := Gyro src\<rparr>"
| "copy_field F_Magnetometer src dst = dst\<lparr>Magnetometer := Magnetometer src\<rparr>"
| "copy_field F_Quaternione src dst = dst\<lparr>Quaternione := Quaternione src\<rparr>"
| "copy_field F_Shake src dst = dst\<lparr>Shake := Shake src\<rparr>"

definition imu_fields :: "field list" where
  "imu_fields = [F_Acceleration, F_Gyro, F_Magnetometer, F_Quaternione, F_Shake]"

datatype owner = Poll_loop | Renderer

datatype poll_pc = Q_fetch | Q_lock | Q_copy "field list" | Q_sleep

datatype render_pc = R_idle | R_lock | R_read "field list" | R_return

text \<open>
  \<open>seen\<close> is what the current \<^verbatim>\<open>PreRender\<close> call has read so far. \<open>written\<close> records,
  newest first, the values that have been written to \<open>currentValue\<close> completely, and
  \<open>fetched\<close> the readings of the fetches that succeeded; neither is read by a step.
\<close>

record 'f IMU_memory =
  provider :: "'f IMU_values"
  currentValueLock :: "owner option"
  poll_at :: poll_pc
  reading :: "'f imuDataType"
  render_at :: render_pc
  seen :: "'f imuDataType"
  written :: "'f imuDataType list"
  fetched :: "'f imuDataType list"

definition poll_loop_step :: "'f response \<Rightarrow> 'f IMU_memory \<Rightarrow> 'f IMU_memory" where
  "poll_loop_step resp s =
     (case poll_at s of
        Q_fetch \<Rightarrow>
          (case getJson resp (reading s) of
             (err, r) \<Rightarrow>
               if err = None then s\<lparr>reading := r, poll_at := Q_lock, fetched := r # fetched s\<rparr>
               else s\<lparr>reading := r, poll_at := Q_sleep\<rparr>)
      | Q_lock \<Rightarrow>
          if currentValueLock s = None
          then s\<lparr>currentValueLock := Some Poll_loop, poll_at := Q_copy imu_fields\<rparr>
          else s
      | Q_copy (f # fs) \<Rightarrow>
          s\<lparr>provider := (provider s)
               \<lparr>currentValue := copy_field f (reading s) (currentValue (provider s))\<rparr>,
            poll_at := Q_copy fs\<rparr>
      | Q_copy [] \<Rightarrow>
          s\<lparr>currentValueLock := None, poll_at := Q_sleep,
            written := currentValue (provider s) # written s\<rparr>
      | Q_sleep \<Rightarrow> s\<lparr>poll_at := Q_fetch\<rparr>)"

text \<open>
  \<^verbatim>\<open>PreRender\<close>: \<^verbatim>\<open>Lock\<close>, the reads of the five imu_fields for the uniforms, \<^verbatim>\<open>Unlock\<close>,
  return; the renderer calls it again for the next frame.
\<close>

definition PreRender_step :: "'f IMU_memory \<Rightarrow> 'f IMU_memory" where
  "PreRender_step s =
     (case render_at s of
        R_idle \<Rightarrow> s\<lparr>render_at := R_lock\<rparr>
      | R_lock \<Rightarrow>
          if currentValueLock s = None
          then s\<lparr>currentValueLock := Some Renderer, render_at := R_read imu_fields\<rparr>
          else s
      | R_read (f # fs) \<Rightarrow>
          s\<lparr>seen := copy_field f (currentValue (provider s)) (seen s), render_at := R_read fs\<rparr>
      | R_read [] \<Rightarrow> s\<lparr>currentValueLock := None, render_at := R_return\<rparr>
      | R_return \<Rightarrow> s\<lparr>render_at := R_idle\<rparr>)"

datatype 'f memory_event = Loop_goes "'f response" | Render_goes

fun memory_step :: "'f memory_event \<Rightarrow> 'f IMU_memory \<Rightarrow> 'f IMU_memory" where
  "memory_step (Loop_goes resp) s = poll_loop_step resp s"
| "memory_step Render_goes s = PreRender_step s"

definition memory_run :: "'f memory_event list \<Rightarrow> 'f IMU_memory \<Rightarrow> 'f IMU_memory" where
  "memory_run schedule s = fold memory_step schedule s"

definition memory_started :: "('f::zero) IMU_values \<Rightarrow> 'f IMU_memory" where
  "memory_started i =
     \<lparr>provider = i, currentValueLock = None, poll_at = Q_fetch, reading = zero_imuDataType,
      render_at = R_idle, seen = zero_imuDataType, written = [currentValue i], fetched = []\<rparr>"

subsection \<open>The Kinect camera\<close>

text \<open>
  The fields of \<open>kinect\<close> that \<^verbatim>\<open>Close\<close> and \<^verbatim>\<open>freenectLoop\<close> share, and where the two
  stand. The loop sets the device up, then alternates between looking at \<open>closed\<close> and
  processing events, tears the device down, and on its way out runs the deferred
  \<^verbatim>\<open>close(kin.loopClosed)\<close>.
\<close>

datatype loop_pc = Loop_setup | Loop_select | Loop_events | Loop_teardown | Loop_exited

record kinect_system =
  kin_closed :: signal_chan
  kin_loopClosed :: signal_chan
  loop_at :: loop_pc
  kin_close_at :: close_pc

text \<open>
  A loop step; the argument is what \<^verbatim>\<open>freenect_process_events\<close> returns when the step
  is that call.
\<close>

definition freenectLoop_step :: "int \<Rightarrow> kinect_system \<Rightarrow> kinect_system" where
  "freenectLoop_step events s =
     (case loop_at s of
        Loop_setup \<Rightarrow> s\<lparr>loop_at := Loop_select\<rparr>
      | Loop_select \<Rightarrow>
          if kin_closed s = ClosedChan then s\<lparr>loop_at := Loop_teardown\<rparr>
          else s\<lparr>loop_at := Loop_events\<rparr>
      | Loop_events \<Rightarrow>
          if events < 0 then s\<lparr>loop_at := Loop_teardown\<rparr> else s\<lparr>loop_at := Loop_select\<rparr>
      | Loop_teardown \<Rightarrow> s\<lparr>kin_loopClosed := ClosedChan, loop_at := Loop_exited\<rparr>
      | Loop_exited \<Rightarrow> s)"

text \<open>
  \<^verbatim>\<open>kinect.Close\<close>: \<^verbatim>\<open>close(kin.closed)\<close>, then \<^verbatim>\<open><-kin.loopClosed\<close>, then the release of
  the instance and its texture, and return.
\<close>

definition kinect_Close_step :: "kinect_system \<Rightarrow> kinect_system" where
  "kinect_Close_step s =
     (case kin_close_at s of
        Close_entry \<Rightarrow> s\<lparr>kin_closed := ClosedChan, kin_close_at := Close_waiting\<rparr>
      | Close_waiting \<Rightarrow>
          if kin_loopClosed s = ClosedChan then s\<lparr>kin_close_at := Close_returned\<rparr> else s
      | Close_returned \<Rightarrow> s)"

datatype kinect_event = Loop_step int | Kinect_Close_step

fun kinect_step :: "kinect_event \<Rightarrow> kinect_system \<Rightarrow> kinect_system" where
  "kinect_step (Loop_step events) s = freenectLoop_step events s"
| "kinect_step Kinect_Close_step s = kinect_Close_step s"

definition kinect_run :: "kinect_event list \<Rightarrow> kinect_system \<Rightarrow> kinect_system" where
  "kinect_run schedule s = fold kinect_step schedule s"

text \<open>The system after a successful \<^verbatim>\<open>open\<close>: both channels made, the loop started.\<close>

definition kinect_opened :: kinect_system where
  "kinect_opened =
     \<lparr>kin_closed = OpenChan, kin_loopClosed = OpenChan, loop_at = Loop_setup,
      kin_close_at = Close_entry\<rparr>"

section \<open>The animation pipeline of \<^verbatim>\<open>main\<close>\<close>

text \<open>
  Animation mode runs the producer (\<^verbatim>\<open>sh.Animate\<close>, on the main goroutine), the counter
  goroutine and the encoder goroutine, joined by the buffered channel \<open>imgStream\<close> and
  the unbuffered channel \<open>counterStream\<close>. A frame is identified by the number of
  frames rendered before it. The steps of the goroutines are interleaved by a
  schedule; a step that cannot be taken yet (a send on a full channel, a receive on an
  empty one, a wait on a non-zero wait group) leaves the state as it is.
\<close>

datatype producer_pc = P_poll | P_send nat | P_close | P_wait | P_exit

datatype counter_pc = C_recv | C_send nat | C_limit | C_finish | C_closing | C_done

datatype encoder_pc = E_recv | E_failed | E_finish | E_done

record pipeline =
  capacity :: nat            \<comment> \<open>\<^verbatim>\<open>int(*framerate)+1\<close>, the capacity of \<open>imgStream\<close>\<close>
  animateNumFrames :: nat    \<comment> \<open>the frame limit, 0 for none\<close>
  cancelled :: bool          \<comment> \<open>\<^verbatim>\<open>cancel()\<close> has been called\<close>
  imgStream :: "nat list"    \<comment> \<open>the frames buffered in \<open>imgStream\<close>, oldest first\<close>
  imgStream_closed :: bool
  counterStream_closed :: bool
  produced :: nat            \<comment> \<open>frames rendered so far\<close>
  frame :: nat               \<comment> \<open>the counter's \<^verbatim>\<open>frame\<close>\<close>
  received :: "nat list"     \<comment> \<open>the frames \<^verbatim>\<open>EncodeAnimation\<close> has received, oldest first\<close>
  draining :: bool           \<comment> \<open>the goroutine started after an encoder failure is running\<close>
  waitgroup :: nat
  producer_at :: producer_pc
  counter_at :: counter_pc
  encoder_at :: encoder_pc

text \<open>
  Modelled from the spec: \<^verbatim>\<open>sh.Animate(ctx, interval, imgStream)\<close>, whose source is not
  part of the files at hand. The spec's producer polls the shared cancellation signal
  between frame productions and is not preempted mid-frame, pushes each produced frame
  into the buffered hand-off, and blocks when the hand-off buffer is full. The call in
  \<^verbatim>\<open>main\<close> passes it no frame limit. After it returns, \<^verbatim>\<open>main\<close> closes \<open>imgStream\<close>,
  waits for the wait group and returns.
\<close>

definition producer_step :: "pipeline \<Rightarrow> pipeline" where
  "producer_step s =
     (case producer_at s of
        P_poll \<Rightarrow>
          if cancelled s then s\<lparr>producer_at := P_close\<rparr>
          else s\<lparr>produced := produced s + 1, producer_at := P_send (produced s)\<rparr>
      | P_send img \<Rightarrow>
          if length (imgStream s) < capacity s
          then s\<lparr>imgStream := imgStream s @ [img], producer_at := P_poll\<rparr>
          else s
      | P_close \<Rightarrow> s\<lparr>imgStream_closed := True, producer_at := P_wait\<rparr>
      | P_wait \<Rightarrow> if waitgroup s = 0 then s\<lparr>producer_at := P_exit\<rparr> else s
      | P_exit \<Rightarrow> s)"

text \<open>
  The counter goroutine: \<^verbatim>\<open>for img := range imgStream\<close>, \<^verbatim>\<open>frame++\<close>, the send on
  \<open>counterStream\<close> (taken together with the receiver, below), the test
  \<^verbatim>\<open>frame == animateNumFrames\<close> with \<^verbatim>\<open>cancel()\<close> and \<^verbatim>\<open>break\<close>; after the loop
  \<^verbatim>\<open>waitgroup.Done()\<close> and the deferred \<^verbatim>\<open>close(counterStream)\<close>.
\<close>

definition counter_step :: "pipeline \<Rightarrow> pipeline" where
  "counter_step s =
     (case counter_at s of
        C_recv \<Rightarrow>
          (case imgStream s of
             img # rest \<Rightarrow> s\<lparr>imgStream := rest, frame := frame s + 1, counter_at := C_send img\<rparr>
           | [] \<Rightarrow> if imgStream_closed s then s\<lparr>counter_at := C_finish\<rparr> else s)
      | C_send img \<Rightarrow> s
      | C_limit \<Rightarrow>
          if frame s = animateNumFrames s then s\<lparr>cancelled := True, counter_at := C_finish\<rparr>
          else s\<lparr>counter_at := C_recv\<rparr>
      | C_finish \<Rightarrow> s\<lparr>waitgroup := waitgroup s - 1, counter_at := C_closing\<rparr>
      | C_closing \<Rightarrow> s\<lparr>counterStream_closed := True, counter_at := C_done\<rparr>
      | C_done \<Rightarrow> s)"

text \<open>
  The encoder goroutine. While \<^verbatim>\<open>format.EncodeAnimation\<close> runs it receives from
  \<open>counterStream\<close>: a frame, when the counter stands at its send, or the end of the
  stream once the channel is closed. The argument \<open>fails\<close> says whether the encoder
  returns an error at this point. On an error: \<^verbatim>\<open>cancel()\<close> and the start of the
  draining goroutine. Then \<^verbatim>\<open>waitgroup.Done()\<close>.
\<close>

definition encoder_step :: "bool \<Rightarrow> pipeline \<Rightarrow> pipeline" where
  "encoder_step fails s =
     (case encoder_at s of
        E_recv \<Rightarrow>
          (case counter_at s of
             C_send img \<Rightarrow>
               s\<lparr>received := received s @ [img], counter_at := C_limit,
                 encoder_at := (if fails then E_failed else E_recv)\<rparr>
           | _ \<Rightarrow>
               if counterStream_closed s
               then s\<lparr>encoder_at := (if fails then E_failed else E_finish)\<rparr>
               else s)
      | E_failed \<Rightarrow> s\<lparr>cancelled := True, draining := True, encoder_at := E_finish\<rparr>
      | E_finish \<Rightarrow> s\<lparr>waitgroup := waitgroup s - 1, encoder_at := E_done\<rparr>
      | E_done \<Rightarrow> s)"

text \<open>The draining goroutine: \<^verbatim>\<open>for range counterStream {}\<close>.\<close>

definition drain_step :: "pipeline \<Rightarrow> pipeline" where
  "drain_step s =
     (if \<not> draining s then s
      else case counter_at s of
             C_send img \<Rightarrow> s\<lparr>counter_at := C_limit\<rparr>
           | _ \<Rightarrow> if counterStream_closed s then s\<lparr>draining := False\<rparr> else s)"

text \<open>The signal goroutine calls \<^verbatim>\<open>cancel()\<close> when the interrupt arrives.\<close>

datatype event = Producer | Counter | Encoder bool | Drain | Interrupt

fun pipeline_step :: "event \<Rightarrow> pipeline \<Rightarrow> pipeline" where
  "pipeline_step Producer s = producer_step s"
| "pipeline_step Counter s = counter_step s"
| "pipeline_step (Encoder fails) s = encoder_step fails s"
| "pipeline_step Drain s = drain_step s"
| "pipeline_step Interrupt s = s\<lparr>cancelled := True\<rparr>"

definition pipeline_run :: "event list \<Rightarrow> pipeline \<Rightarrow> pipeline" where
  "pipeline_run schedule s = fold pipeline_step schedule s"

text \<open>The session at the start of animation mode.\<close>

definition session :: "nat \<Rightarrow> nat \<Rightarrow> pipeline" where
  "session cap limit =
     \<lparr>capacity = cap, animateNumFrames = limit, cancelled = False, imgStream = [],
      imgStream_closed = False, counterStream_closed = False, produced = 0, frame = 0,
      received = [], draining = False, waitgroup = 2, producer_at = P_poll,
      counter_at = C_recv, encoder_at = E_recv\<rparr>"

section \<open>Notions used to state the properties\<close>

text \<open>
  Running a loop body over the frames \<open>xs\<close> one after the other: the final state if
  every step went on without error or panic, \<open>None\<close> otherwise.
\<close>

fun steps_ok :: "('s \<Rightarrow> 'a \<Rightarrow> panic + (error option \<times> 's)) \<Rightarrow> 's \<Rightarrow> 'a list \<Rightarrow> 's option" where
  "steps_ok body s [] = Some s"
| "steps_ok body s (x # xs) =
     (case body s x of
        Inr (None, s') \<Rightarrow> steps_ok body s' xs
      | _ \<Rightarrow> None)"

text \<open>The palettised frames of a list of images, if no conversion panics.\<close>

fun palettes :: "(Image \<Rightarrow> panic + 'p) \<Rightarrow> Image list \<Rightarrow> 'p list option" where
  "palettes tp [] = Some []"
| "palettes tp (img # imgs) =
     (case tp img of
        Inl e \<Rightarrow> None
      | Inr p \<Rightarrow> map_option ((#) p) (palettes tp imgs))"

text \<open>A one-pixel frame that is not an \<^verbatim>\<open>*image.RGBA\<close>, used in examples.\<close>

definition px :: Image where
  "px = Generic (Rect 0 0 1 1) (\<lambda>x y. (0xffff, 0x8080, 0, 0xffff))"

text \<open>
  The output of one independent \<^verbatim>\<open>Encode\<close> call: what a fresh \<^verbatim>\<open>bytes.Buffer\<close> holds
  after the call, if the call returned \<^verbatim>\<open>nil\<close>.
\<close>

definition Encode_output ::
  "(byte list Write \<Rightarrow> byte list \<Rightarrow> Image \<Rightarrow> panic + (error option \<times> byte list)) \<Rightarrow>
   Image \<Rightarrow> byte list option" where
  "Encode_output enc img =
     (case enc Buffer_Write [] img of
        Inr (None, out) \<Rightarrow> Some out
      | _ \<Rightarrow> None)"

text \<open>
  What it means for an animation encoder with per-frame step \<open>step\<close> to end with the
  input or at the first failure. If the frames \<open>pre\<close> are encoded without failure,
  then on the channel that delivers \<open>pre\<close> and is closed the encoder returns \<^verbatim>\<open>nil\<close>;
  and if the step fails with \<open>err\<close> on the next frame, the encoder returns \<open>err\<close> and
  leaves in the channel all that follows this frame, be it finite or not.
\<close>

definition stops_at_first_failure ::
  "('s \<Rightarrow> 'a \<Rightarrow> panic + (error option \<times> 's)) \<Rightarrow>
   ('s \<Rightarrow> 'a chan \<Rightarrow> (panic + (error option \<times> 's \<times> 'a chan)) option) \<Rightarrow> bool" where
  "stops_at_first_failure step anim \<longleftrightarrow>
     (\<forall>s pre s1. steps_ok step s pre = Some s1 \<longrightarrow>
        anim s (chan_of pre) = Some (Inr (None, s1, Closed)) \<and>
        (\<forall>img err s2 rest. step s1 img = Inr (Some err, s2) \<longrightarrow>
           anim s (chan_append pre (Recv img rest)) = Some (Inr (Some err, s2, rest))))"

text \<open>A sink that accepts \<open>n\<close> more writes, whatever their size, and then fails.\<close>

definition Counted_Write :: "nat Write" where
  "Counted_Write n p = (if n = 0 then (Some (Error ''write failed''), 0) else (None, n - 1))"

text \<open>
  An \<^verbatim>\<open>*image.RGBA\<close> holds its pixels when \<^verbatim>\<open>Pix\<close> has at least four bytes for each
  point of its rectangle, as every image made by \<^verbatim>\<open>image.NewRGBA\<close> or \<^verbatim>\<open>SubImage\<close>
  has. Other images are read through \<^verbatim>\<open>At\<close> only.
\<close>

fun holds_pixels :: "Image \<Rightarrow> bool" where
  "holds_pixels (RGBA pix stride r) \<longleftrightarrow> 4 * Dx r * Dy r \<le> int (length pix)"
| "holds_pixels (Generic r at) \<longleftrightarrow> True"

text \<open>
  The coordinates of the bounds are Go \<^verbatim>\<open>int\<close>s, and for bounds that are not empty the
  byte count \<open>W * H * 3\<close> of the RGB24 output fits an \<^verbatim>\<open>int\<close>.
\<close>

definition fits_int :: "Image \<Rightarrow> bool" where
  "fits_int img \<longleftrightarrow>
     (let r = Bounds img in
      is_int64 (X (Min_pt r)) \<and> is_int64 (Y (Min_pt r)) \<and>
      is_int64 (X (Max_pt r)) \<and> is_int64 (Y (Max_pt r)) \<and>
      (X (Min_pt r) < X (Max_pt r) \<and> Y (Min_pt r) < Y (Max_pt r) \<longrightarrow>
         (X (Max_pt r) - X (Min_pt r)) * (Y (Max_pt r) - Y (Min_pt r)) * 3 < 2 ^ 63))"

text \<open>
  Frames of one colour, \<open>W\<close> wide and \<open>H\<close> high, with their origin at \<open>(0, 0)\<close>: an
  \<^verbatim>\<open>*image.RGBA\<close> whose \<^verbatim>\<open>Pix\<close> is exactly the \<open>W * H\<close> four-byte pixels, and an image
  of another type that has the colour \<open>c\<close> at every point.
\<close>

definition solid_RGBA :: "nat \<Rightarrow> nat \<Rightarrow> int \<Rightarrow> byte \<times> byte \<times> byte \<times> byte \<Rightarrow> Image" where
  "solid_RGBA W H stride c =
     (case c of (r, g, b, a) \<Rightarrow>
        RGBA (concat (replicate (W * H) [r, g, b, a])) stride (Rect 0 0 (int W) (int H)))"

definition solid_Generic :: "nat \<Rightarrow> nat \<Rightarrow> rgba16 \<Rightarrow> Image" where
  "solid_Generic W H c = Generic (Rect 0 0 (int W) (int H)) (\<lambda>x y. c)"

text \<open>
  The width, the height and the byte count \<open>4 * W * H\<close> of a frame are within the limit
  of one allocation.
\<close>

definition size_fits :: "nat \<Rightarrow> nat \<Rightarrow> bool" where
  "size_fits W H \<longleftrightarrow>
     int W \<le> maxAlloc \<and> int H \<le> maxAlloc \<and> 4 * int W * int H \<le> maxAlloc"

text \<open>A reading with integers in place of floats, used in examples.\<close>

definition reading1 :: "int imuDataType" where
  "reading1 = \<lparr>Acceleration = (1, 2, 3), Gyro = (4, 5, 6), Magnetometer = (7, 8, 9),
     Quaternione = (1, 0, 0, 0), Shake = True\<rparr>"

text \<open>Two values agree on every field that is not in the list.\<close>

definition agree_except :: "field list \<Rightarrow> 'f imuDataType \<Rightarrow> 'f imuDataType \<Rightarrow> bool" where
  "agree_except fs a b \<longleftrightarrow>
     (F_Acceleration \<notin> set fs \<longrightarrow> Acceleration a = Acceleration b) \<and>
     (F_Gyro \<notin> set fs \<longrightarrow> Gyro a = Gyro b) \<and>
     (F_Magnetometer \<notin> set fs \<longrightarrow> Magnetometer a = Magnetometer b) \<and>
     (F_Quaternione \<notin> set fs \<longrightarrow> Quaternione a = Quaternione b) \<and>
     (F_Shake \<notin> set fs \<longrightarrow> Shake a = Shake b)"

text \<open>What holds in every state that the two goroutines can reach.\<close>

definition memory_inv :: "'f imuDataType \<Rightarrow> 'f IMU_memory \<Rightarrow> bool" where
  "memory_inv v0 s \<longleftrightarrow>
     written s \<noteq> [] \<and>
     set (written s) \<subseteq> insert v0 (set (fetched s)) \<and>
     (currentValueLock s = Some Poll_loop \<longleftrightarrow> (\<exists>fs. poll_at s = Q_copy fs)) \<and>
     (currentValueLock s = Some Renderer \<longleftrightarrow> (\<exists>fs. render_at s = R_read fs)) \<and>
     (currentValueLock s \<noteq> Some Poll_loop \<longrightarrow> currentValue (provider s) = hd (written s)) \<and>
     (poll_at s = Q_lock \<longrightarrow> reading s \<in> set (fetched s)) \<and>
     (\<forall>fs. poll_at s = Q_copy fs \<longrightarrow>
        reading s \<in> set (fetched s) \<and> agree_except fs (currentValue (provider s)) (reading s)) \<and>
     (\<forall>fs. render_at s = R_read fs \<longrightarrow> agree_except fs (seen s) (currentValue (provider s))) \<and>
     (render_at s = R_return \<longrightarrow> seen s \<in> set (written s))"

text \<open>
  What holds in every state of a session with frame limit \<open>limit\<close>: the frames are
  numbered as they are rendered and move through \<open>imgStream\<close> and the counter in that
  order; while the encoder is receiving it has got every frame the counter has passed
  on; the counter stops at the limit; the draining goroutine runs only after the
  encoder has left \<^verbatim>\<open>EncodeAnimation\<close>; the wait group counts the two goroutines that
  have not yet called \<^verbatim>\<open>Done\<close>.
\<close>

definition pipeline_inv :: "nat \<Rightarrow> pipeline \<Rightarrow> bool" where
  "pipeline_inv limit s \<longleftrightarrow>
     animateNumFrames s = limit \<and>
     received s = [0 ..< length (received s)] \<and>
     imgStream s = [frame s ..< frame s + length (imgStream s)] \<and>
     (case producer_at s of
        P_send img \<Rightarrow> produced s = Suc img \<and> img = frame s + length (imgStream s)
      | _ \<Rightarrow> produced s = frame s + length (imgStream s)) \<and>
     (case counter_at s of
        C_send img \<Rightarrow> frame s = Suc img \<and> length (received s) \<le> img \<and>
          (encoder_at s = E_recv \<longrightarrow> length (received s) = img)
      | _ \<Rightarrow> length (received s) \<le> frame s \<and>
          (encoder_at s = E_recv \<longrightarrow> length (received s) = frame s)) \<and>
     (0 < limit \<longrightarrow> frame s \<le> limit \<and> (counter_at s = C_recv \<longrightarrow> frame s < limit)) \<and>
     (draining s \<longrightarrow> encoder_at s = E_finish \<or> encoder_at s = E_done) \<and>
     waitgroup s =
       (if counter_at s = C_closing \<or> counter_at s = C_done then 0 else 1) +
       (if encoder_at s = E_done then 0 else 1) \<and>
     (producer_at s = P_exit \<longrightarrow> waitgroup s = 0)"

section \<open>Properties\<close>

subsection \<open>The loop over a channel\<close>

lemma range_loop_Closed: "range_loop body s Closed = Some (Inr (None, s, Closed))"
  by (subst range_loop.simps) simp

lemma range_loop_Recv:
  "range_loop body s (Recv img rest) =
     (case body s img of
        Inl p \<Rightarrow> Some (Inl p)
      | Inr (Some err, s') \<Rightarrow> Some (Inr (Some err, s', rest))
      | Inr (None, s') \<Rightarrow> range_loop body s' rest)"
  by (subst range_loop.simps) simp

lemma range_loop_prefix:
  "steps_ok body s pre = Some s1 \<Longrightarrow>
   range_loop body s (chan_append pre ch) = range_loop body s1 ch"
proof (induction pre arbitrary: s)
  case Nil
  then show ?case by simp
next
  case (Cons x xs)
  then show ?case
    by (auto simp: range_loop_Recv split: sum.splits option.splits prod.splits)
qed

lemma chan_of_append: "chan_of xs = chan_append xs Closed"
  by (induction xs) simp_all

lemma range_loop_ends:
  "steps_ok body s frames = Some s1 \<Longrightarrow>
   range_loop body s (chan_of frames) = Some (Inr (None, s1, Closed))"
  by (simp add: chan_of_append range_loop_prefix range_loop_Closed)

lemma range_loop_fails:
  "steps_ok body s pre = Some s1 \<Longrightarrow> body s1 img = Inr (Some e, s2) \<Longrightarrow>
   range_loop body s (chan_append pre (Recv img rest)) = Some (Inr (Some e, s2, rest))"
  by (simp add: range_loop_prefix range_loop_Recv)

lemma range_loop_panics:
  "steps_ok body s pre = Some s1 \<Longrightarrow> body s1 img = Inl p \<Longrightarrow>
   range_loop body s (chan_append pre (Recv img rest)) = Some (Inl p)"
  by (simp add: range_loop_prefix range_loop_Recv)

lemma GIFFormat_collect_Closed: "GIFFormat_collect tp iv g Closed = Some (Inr g)"
  by (subst GIFFormat_collect.simps) simp

lemma GIFFormat_collect_Recv:
  "GIFFormat_collect tp iv g (Recv img rest) =
     (case tp img of
        Inl p \<Rightarrow> Some (Inl p)
      | Inr fr \<Rightarrow>
          GIFFormat_collect tp iv
            (g\<lparr>Image := Image g @ [fr], Delay := Delay g @ [gif_delay iv],
               Disposal := Disposal g @ [DisposalBackground]\<rparr>) rest)"
  by (subst GIFFormat_collect.simps) simp

lemma GIFFormat_collect_chan_of:
  "palettes tp frames = Some ps \<Longrightarrow>
   GIFFormat_collect tp iv g (chan_of frames) =
     Some (Inr (g\<lparr>Image := Image g @ ps,
                  Delay := Delay g @ replicate (length frames) (gif_delay iv),
                  Disposal := Disposal g @ replicate (length frames) DisposalBackground\<rparr>))"
proof (induction frames arbitrary: g ps)
  case Nil
  then show ?case by (simp add: GIFFormat_collect_Closed)
next
  case (Cons img imgs)
  then show ?case
    by (auto simp: GIFFormat_collect_Recv replicate_append_same split: sum.splits)
qed

lemma gif_delay_trunc:
  "gif_delay interval = (if 0 \<le> interval then interval div 10000000 else - ((- interval) div 10000000))"
  by (simp add: gif_delay_def Second_def signed_divide_int_def sgn_if)

lemma GIFFormat_EncodeAnimation_chan_of:
  "palettes toPaletted frames = Some ps \<Longrightarrow>
   GIFFormat_EncodeAnimation toPaletted EncodeAll w (chan_of frames) interval =
     (case EncodeAll w
             \<lparr>Image = ps, Delay = replicate (length frames) (gif_delay interval),
              LoopCount = 0, Disposal = replicate (length frames) DisposalBackground,
              BackgroundIndex = 0\<rparr> of
        (err, w') \<Rightarrow> Some (Inr (err, w', Closed)))"
  by (simp add: GIFFormat_EncodeAnimation_def GIFFormat_collect_chan_of)

text \<open>
  Claim C9. For every pacing interval the delay of each GIF frame is the interval in
  1/100-second units, obtained by truncating division (towards zero); it is 50 for
  500ms and 0 for 0. The \<^verbatim>\<open>gif.GIF\<close> handed to \<^verbatim>\<open>gif.EncodeAll\<close> has one such delay
  per frame and \<^verbatim>\<open>LoopCount\<close> 0, the value that means looping forever.
\<close>

theorem gif_delay_loop:
  "(palettes toPaletted frames = Some ps \<longrightarrow>
    GIFFormat_EncodeAnimation toPaletted EncodeAll w (chan_of frames) interval =
      (case EncodeAll w
              \<lparr>Image = ps, Delay = replicate (length frames) (gif_delay interval),
               LoopCount = 0, Disposal = replicate (length frames) DisposalBackground,
               BackgroundIndex = 0\<rparr> of
         (err, w') \<Rightarrow> Some (Inr (err, w', Closed)))) \<and>
   gif_delay interval =
     (if 0 \<le> interval then interval div 10000000 else - ((- interval) div 10000000)) \<and>
   gif_delay (500 * Millisecond) = 50 \<and> gif_delay 0 = 0"
proof (intro conjI impI)
  show "gif_delay (500 * Millisecond) = 50"
    by (simp add: gif_delay_def Second_def Millisecond_def signed_divide_int_def)
  show "gif_delay 0 = 0"
    by (simp add: gif_delay_def)
qed (simp_all only: GIFFormat_EncodeAnimation_chan_of gif_delay_trunc)

theorem gif_delay_loop_witness:
  "palettes (\<lambda>img. Inr (Bounds img)) [px, px] = Some [Rect 0 0 1 1, Rect 0 0 1 1] \<and>
   GIFFormat_EncodeAnimation (\<lambda>img. Inr (Bounds img)) (\<lambda>w g. (None, w @ [g]))
       [] (chan_of [px, px]) (40 * Millisecond) =
     Some (Inr (None,
       [\<lparr>Image = [Rect 0 0 1 1, Rect 0 0 1 1], Delay = [4, 4], LoopCount = 0,
         Disposal = [2, 2], BackgroundIndex = 0\<rparr>], Closed))"
proof -
  have h: "palettes (\<lambda>img. Inr (Bounds img)) [px, px] = Some [Rect 0 0 1 1, Rect 0 0 1 1]"
    by (simp add: px_def)
  have d: "gif_delay (40 * Millisecond) = 4"
    by (simp add: gif_delay_def Second_def Millisecond_def signed_divide_int_def)
  show ?thesis
    using h gif_delay_loop [of "\<lambda>img. Inr (Bounds img)" "[px, px]" "[Rect 0 0 1 1, Rect 0 0 1 1]"
        "\<lambda>w g. (None, w @ [g])" "[]" "40 * Millisecond"]
    by (simp add: d DisposalBackground_def numeral_2_eq_2)
qed

lemma range_loop_stops: "stops_at_first_failure step (range_loop step)"
  unfolding stops_at_first_failure_def
  by (intro allI impI conjI range_loop_ends range_loop_fails)

text \<open>
  Claim C5. For every format, \<^verbatim>\<open>EncodeAnimation\<close> returns when the input sequence ends
  or at the first write failure, and then returns that failure without receiving
  anything more from the channel. The GIF encoder writes only after the channel is
  closed, so its one write failure is returned with nothing left to consume.
\<close>

theorem EncodeAnimation_stops:
  "stops_at_first_failure (PNGFormat_Encode png Write)
     (\<lambda>w stream. PNGFormat_EncodeAnimation png Write w stream interval) \<and>
   stops_at_first_failure (JPGFormat_Encode jpeg Write)
     (\<lambda>w stream. JPGFormat_EncodeAnimation jpeg Write w stream interval) \<and>
   stops_at_first_failure (RGB24Format_Encode Write)
     (\<lambda>w stream. RGB24Format_EncodeAnimation Write w stream interval) \<and>
   stops_at_first_failure (RGBA32Format_Encode Write)
     (\<lambda>w stream. RGBA32Format_EncodeAnimation Write w stream interval) \<and>
   stops_at_first_failure (AnsiDisplay_frame Write)
     (\<lambda>(f, w) stream. AnsiDisplay_EncodeAnimation Write f w stream interval) \<and>
   (\<forall>frames ps. palettes toPaletted frames = Some ps \<longrightarrow>
      (\<exists>gifImg. GIFFormat_EncodeAnimation toPaletted EncodeAll w (chan_of frames) interval =
         (case EncodeAll w gifImg of (err, w') \<Rightarrow> Some (Inr (err, w', Closed)))))"
proof (intro conjI)
  have "stops_at_first_failure (AnsiDisplay_frame Write) (range_loop (AnsiDisplay_frame Write))"
    by (rule range_loop_stops)
  also have "range_loop (AnsiDisplay_frame Write) =
      (\<lambda>(f, w) stream. AnsiDisplay_EncodeAnimation Write f w stream interval)"
    by (auto simp: AnsiDisplay_EncodeAnimation_def fun_eq_iff)
  finally show "stops_at_first_failure (AnsiDisplay_frame Write)
      (\<lambda>(f, w) stream. AnsiDisplay_EncodeAnimation Write f w stream interval)" .
  show "\<forall>frames ps. palettes toPaletted frames = Some ps \<longrightarrow>
      (\<exists>gifImg. GIFFormat_EncodeAnimation toPaletted EncodeAll w (chan_of frames) interval =
         (case EncodeAll w gifImg of (err, w') \<Rightarrow> Some (Inr (err, w', Closed))))"
    by (intro allI impI exI) (rule GIFFormat_EncodeAnimation_chan_of)
qed (simp_all only: PNGFormat_EncodeAnimation_def JPGFormat_EncodeAnimation_def
      RGB24Format_EncodeAnimation_def RGBA32Format_EncodeAnimation_def range_loop_stops)


theorem EncodeAnimation_stops_witness:
  "steps_ok (PNGFormat_Encode (\<lambda>img. Inr [[1], [2]]) Counted_Write) 2 [px] = Some 0 \<and>
   PNGFormat_Encode (\<lambda>img. Inr [[1], [2]]) Counted_Write 0 px =
     Inr (Some (Error ''write failed''), 0) \<and>
   PNGFormat_EncodeAnimation (\<lambda>img. Inr [[1], [2]]) Counted_Write 2
       (chan_append [px] (Recv px (chan_of [px, px]))) 0 =
     Some (Inr (Some (Error ''write failed''), 0, chan_of [px, px])) \<and>
   steps_ok (RGB24Format_Encode Counted_Write) 1 [px] = Some 0 \<and>
   RGB24Format_Encode Counted_Write 0 px = Inr (Some (Error ''write failed''), 0) \<and>
   RGB24Format_EncodeAnimation Counted_Write 1 (chan_of [px]) 0 = Some (Inr (None, 0, Closed)) \<and>
   RGB24Format_EncodeAnimation Counted_Write 1
       (chan_append [px] (Recv px (chan_of [px, px]))) 0 =
     Some (Inr (Some (Error ''write failed''), 0, chan_of [px, px])) \<and>
   steps_ok (AnsiDisplay_frame Counted_Write) (\<lparr>initDone = False\<rparr>, 1) [px] =
     Some (\<lparr>initDone = True\<rparr>, 0) \<and>
   AnsiDisplay_frame Counted_Write (\<lparr>initDone = True\<rparr>, 0) px =
     Inr (Some (Error ''write failed''), (\<lparr>initDone = True\<rparr>, 0)) \<and>
   AnsiDisplay_EncodeAnimation Counted_Write \<lparr>initDone = False\<rparr> 1
       (chan_append [px] (Recv px (chan_of [px, px]))) 0 =
     Some (Inr (Some (Error ''write failed''), (\<lparr>initDone = True\<rparr>, 0), chan_of [px, px])) \<and>
   palettes (\<lambda>img. Inr (Bounds img)) [px] = Some [Rect 0 0 1 1] \<and>
   (\<exists>gifImg. GIFFormat_EncodeAnimation (\<lambda>img. Inr (Bounds img))
        (\<lambda>w g. (Some (Error ''write failed''), w)) (0::nat) (chan_of [px]) 0 =
      (case (\<lambda>w g. (Some (Error ''write failed''), w)) (0::nat) gifImg of
         (err, w') \<Rightarrow> Some (Inr (err, w', Closed))))"
proof -
  have png1: "steps_ok (PNGFormat_Encode (\<lambda>img. Inr [[1], [2]]) Counted_Write) 2 [px] = Some 0"
    by code_simp
  have png2: "PNGFormat_Encode (\<lambda>img. Inr [[1], [2]]) Counted_Write 0 px =
      Inr (Some (Error ''write failed''), 0)"
    by code_simp
  have rgb1: "steps_ok (RGB24Format_Encode Counted_Write) 1 [px] = Some 0"
    by code_simp
  have rgb2: "RGB24Format_Encode Counted_Write 0 px = Inr (Some (Error ''write failed''), 0)"
    by code_simp
  have ansi1: "steps_ok (AnsiDisplay_frame Counted_Write) (\<lparr>initDone = False\<rparr>, 1) [px] =
      Some (\<lparr>initDone = True\<rparr>, 0)"
    by code_simp
  have ansi2: "AnsiDisplay_frame Counted_Write (\<lparr>initDone = True\<rparr>, 0) px =
      Inr (Some (Error ''write failed''), (\<lparr>initDone = True\<rparr>, 0))"
    by code_simp
  have gif: "palettes (\<lambda>img. Inr (Bounds img)) [px] = Some [Rect 0 0 1 1]"
    by (simp add: px_def)
  note inst = EncodeAnimation_stops [where png = "\<lambda>img. Inr [[1], [2]]" and Write = Counted_Write
      and interval = 0 and toPaletted = "\<lambda>img. Inr (Bounds img)"
      and EncodeAll = "\<lambda>w g. (Some (Error ''write failed''), w)" and w = "0::nat",
      unfolded stops_at_first_failure_def]
  show ?thesis
    using png1 png2 rgb1 rgb2 ansi1 ansi2 gif inst
    by (auto simp del: chan_append.simps chan_of.simps)
qed

subsection \<open>Encoding into a buffer\<close>

lemma write_chunks_Buffer: "write_chunks Buffer_Write b cs = (None, b @ concat cs)"
  by (induction cs arbitrary: b) (simp_all add: Buffer_Write_def)

lemma codec_Encode_Buffer:
  "codec_Encode c Buffer_Write b img =
     (case c img of Inl err \<Rightarrow> (Some err, b) | Inr chunks \<Rightarrow> (None, b @ concat chunks))"
  by (simp add: codec_Encode_def write_chunks_Buffer split: sum.splits)

lemma PNGFormat_Encode_appends:
  "Encode_output (PNGFormat_Encode png) img = Some out \<Longrightarrow>
   PNGFormat_Encode png Buffer_Write b img = Inr (None, b @ out)"
  by (auto simp: Encode_output_def PNGFormat_Encode_def codec_Encode_Buffer split: sum.splits)

lemma JPGFormat_Encode_appends:
  "Encode_output (JPGFormat_Encode jpeg) img = Some out \<Longrightarrow>
   JPGFormat_Encode jpeg Buffer_Write b img = Inr (None, b @ out)"
  by (auto simp: Encode_output_def JPGFormat_Encode_def codec_Encode_Buffer split: sum.splits)

lemma RGB24Format_Encode_appends:
  "Encode_output RGB24Format_Encode img = Some out \<Longrightarrow>
   RGB24Format_Encode Buffer_Write b img = Inr (None, b @ out)"
  by (auto simp: Encode_output_def RGB24Format_Encode_def Buffer_Write_def Let_def
      split: sum.splits)

lemma RGBA32Format_Encode_appends:
  "Encode_output RGBA32Format_Encode img = Some out \<Longrightarrow>
   RGBA32Format_Encode Buffer_Write b img = Inr (None, b @ out)"
  by (auto simp: Encode_output_def RGBA32Format_Encode_def Buffer_Write_def
      split: sum.splits Image.splits)

lemma steps_ok_appends:
  assumes app: "\<And>img out b. Encode_output enc img = Some out \<Longrightarrow>
                  enc Buffer_Write b img = Inr (None, b @ out)"
  shows "map (Encode_output enc) frames = map Some outs \<Longrightarrow>
         steps_ok (enc Buffer_Write) b frames = Some (b @ concat outs)"
proof (induction frames arbitrary: b outs)
  case Nil
  then show ?case by simp
next
  case (Cons img imgs)
  then obtain out outs' where outs: "outs = out # outs'"
    and out: "Encode_output enc img = Some out"
    and rest: "map (Encode_output enc) imgs = map Some outs'"
    by (cases outs) auto
  from app [OF out] have "enc Buffer_Write b img = Inr (None, b @ out)" .
  with Cons.IH [OF rest, of "b @ out"] outs show ?case by simp
qed

text \<open>
  Claim C7. For a finite frame sequence, \<^verbatim>\<open>EncodeAnimation\<close> of a format with the
  single-frame fallback (PNG, JPEG, RGB24, RGBA32) writes the concatenation, in input
  order, of the outputs of the independent \<^verbatim>\<open>Encode\<close> calls on those frames.
\<close>

theorem fallback_EncodeAnimation_concat:
  "(map (Encode_output (PNGFormat_Encode png)) frames = map Some outs_png \<longrightarrow>
      PNGFormat_EncodeAnimation png Buffer_Write b (chan_of frames) interval =
        Some (Inr (None, b @ concat outs_png, Closed))) \<and>
   (map (Encode_output (JPGFormat_Encode jpeg)) frames = map Some outs_jpg \<longrightarrow>
      JPGFormat_EncodeAnimation jpeg Buffer_Write b (chan_of frames) interval =
        Some (Inr (None, b @ concat outs_jpg, Closed))) \<and>
   (map (Encode_output RGB24Format_Encode) frames = map Some outs_rgb \<longrightarrow>
      RGB24Format_EncodeAnimation Buffer_Write b (chan_of frames) interval =
        Some (Inr (None, b @ concat outs_rgb, Closed))) \<and>
   (map (Encode_output RGBA32Format_Encode) frames = map Some outs_rgba \<longrightarrow>
      RGBA32Format_EncodeAnimation Buffer_Write b (chan_of frames) interval =
        Some (Inr (None, b @ concat outs_rgba, Closed)))"
proof (intro conjI impI)
  assume "map (Encode_output (PNGFormat_Encode png)) frames = map Some outs_png"
  then show "PNGFormat_EncodeAnimation png Buffer_Write b (chan_of frames) interval =
      Some (Inr (None, b @ concat outs_png, Closed))"
    unfolding PNGFormat_EncodeAnimation_def
    by (intro range_loop_ends steps_ok_appends PNGFormat_Encode_appends)
next
  assume "map (Encode_output (JPGFormat_Encode jpeg)) frames = map Some outs_jpg"
  then show "JPGFormat_EncodeAnimation jpeg Buffer_Write b (chan_of frames) interval =
      Some (Inr (None, b @ concat outs_jpg, Closed))"
    unfolding JPGFormat_EncodeAnimation_def
    by (intro range_loop_ends steps_ok_appends JPGFormat_Encode_appends)
next
  assume "map (Encode_output RGB24Format_Encode) frames = map Some outs_rgb"
  then show "RGB24Format_EncodeAnimation Buffer_Write b (chan_of frames) interval =
      Some (Inr (None, b @ concat outs_rgb, Closed))"
    unfolding RGB24Format_EncodeAnimation_def
    by (intro range_loop_ends steps_ok_appends RGB24Format_Encode_appends)
next
  assume "map (Encode_output RGBA32Format_Encode) frames = map Some outs_rgba"
  then show "RGBA32Format_EncodeAnimation Buffer_Write b (chan_of frames) interval =
      Some (Inr (None, b @ concat outs_rgba, Closed))"
    unfolding RGBA32Format_EncodeAnimation_def
    by (intro range_loop_ends steps_ok_appends RGBA32Format_Encode_appends)
qed

theorem fallback_EncodeAnimation_concat_witness:
  "map (Encode_output (PNGFormat_Encode (\<lambda>img. Inr [[1, 2], [3]]))) [px, px] =
     map Some [[1, 2, 3], [1, 2, 3]] \<and>
   PNGFormat_EncodeAnimation (\<lambda>img. Inr [[1, 2], [3]]) Buffer_Write [7] (chan_of [px, px]) 0 =
     Some (Inr (None, [7, 1, 2, 3, 1, 2, 3], Closed)) \<and>
   map (Encode_output (JPGFormat_Encode (\<lambda>img. Inr [[4], [5]]))) [px, px] =
     map Some [[4, 5], [4, 5]] \<and>
   JPGFormat_EncodeAnimation (\<lambda>img. Inr [[4], [5]]) Buffer_Write [7] (chan_of [px, px]) 0 =
     Some (Inr (None, [7, 4, 5, 4, 5], Closed)) \<and>
   map (Encode_output RGB24Format_Encode) [px, px] = map Some [[255, 128, 0], [255, 128, 0]] \<and>
   RGB24Format_EncodeAnimation Buffer_Write [7] (chan_of [px, px]) 0 =
     Some (Inr (None, [7, 255, 128, 0, 255, 128, 0], Closed)) \<and>
   map (Encode_output RGBA32Format_Encode) [px, px] =
     map Some [[255, 128, 0, 255], [255, 128, 0, 255]] \<and>
   RGBA32Format_EncodeAnimation Buffer_Write [7] (chan_of [px, px]) 0 =
     Some (Inr (None, [7, 255, 128, 0, 255, 255, 128, 0, 255], Closed))"
proof -
  have png: "map (Encode_output (PNGFormat_Encode (\<lambda>img. Inr [[1, 2], [3]]))) [px, px] =
      map Some [[1, 2, 3], [1, 2, 3]]"
    by (simp add: Encode_output_def PNGFormat_Encode_def codec_Encode_Buffer)
  have jpg: "map (Encode_output (JPGFormat_Encode (\<lambda>img. Inr [[4], [5]]))) [px, px] =
      map Some [[4, 5], [4, 5]]"
    by (simp add: Encode_output_def JPGFormat_Encode_def codec_Encode_Buffer)
  have rgb1: "Encode_output RGB24Format_Encode px = Some [255, 128, 0]"
    by code_simp
  have rgba1: "Encode_output RGBA32Format_Encode px = Some [255, 128, 0, 255]"
    by code_simp
  have rgb: "map (Encode_output RGB24Format_Encode) [px, px] =
      map Some [[255, 128, 0], [255, 128, 0]]"
    by (simp add: rgb1)
  have rgba: "map (Encode_output RGBA32Format_Encode) [px, px] =
      map Some [[255, 128, 0, 255], [255, 128, 0, 255]]"
    by (simp add: rgba1)
  show ?thesis
    using png jpg rgb rgba
      fallback_EncodeAnimation_concat [where png = "\<lambda>img. Inr [[1, 2], [3]]"
        and jpeg = "\<lambda>img. Inr [[4], [5]]" and frames = "[px, px]" and b = "[7]" and interval = 0
        and outs_png = "[[1, 2, 3], [1, 2, 3]]" and outs_jpg = "[[4, 5], [4, 5]]"
        and outs_rgb = "[[255, 128, 0], [255, 128, 0]]"
        and outs_rgba = "[[255, 128, 0, 255], [255, 128, 0, 255]]"]
    by simp
qed

subsection \<open>Counted loops\<close>

lemma for_range_done: "hi \<le> i \<Longrightarrow> for_range body i hi s = Inr s"
  by (subst for_range.simps) simp

lemma for_range_step:
  "i < hi \<Longrightarrow> for_range body i hi s =
     (case body i s of Inl p \<Rightarrow> Inl p | Inr s' \<Rightarrow> for_range body (i + 1) hi s')"
  by (subst for_range.simps) simp

lemma for_range_rule_from:
  assumes step: "\<And>j t. lo \<le> j \<Longrightarrow> j < hi \<Longrightarrow> P j t \<Longrightarrow> \<exists>t'. body j t = Inr t' \<and> P (j + 1) t'"
  shows "lo \<le> i \<Longrightarrow> i \<le> hi \<Longrightarrow> P i s \<Longrightarrow> \<exists>s'. for_range body i hi s = Inr s' \<and> P hi s'"
proof (induction "nat (hi - i)" arbitrary: i s)
  case 0
  then have "i = hi" by simp
  with "0.prems" show ?case by (simp add: for_range_done)
next
  case (Suc n)
  then have lt: "i < hi" by simp
  from step [OF \<open>lo \<le> i\<close> lt \<open>P i s\<close>]
  obtain t where t: "body i s = Inr t" "P (i + 1) t" by auto
  have "n = nat (hi - (i + 1))" using Suc.hyps(2) by simp
  from Suc.hyps(1) [OF this _ _ t(2)] lt \<open>lo \<le> i\<close>
  obtain s' where "for_range body (i + 1) hi t = Inr s'" "P hi s'" by auto
  with t lt show ?case by (simp add: for_range_step)
qed

lemma for_range_rule:
  assumes "lo \<le> hi" and "P lo s"
    and "\<And>j t. lo \<le> j \<Longrightarrow> j < hi \<Longrightarrow> P j t \<Longrightarrow> \<exists>t'. body j t = Inr t' \<and> P (j + 1) t'"
  shows "\<exists>s'. for_range body lo hi s = Inr s' \<and> P hi s'"
  using for_range_rule_from [of lo hi P body lo s] assms by simp

lemma for_range_invariant:
  assumes "P s"
    and step: "\<And>j t. lo \<le> j \<Longrightarrow> j < hi \<Longrightarrow> P t \<Longrightarrow> \<exists>t'. body j t = Inr t' \<and> P t'"
  shows "\<exists>s'. for_range body lo hi s = Inr s' \<and> P s'"
proof (cases "lo \<le> hi")
  case True
  show ?thesis
    by (rule for_range_rule [where P = "\<lambda>j. P", OF True assms(1)]) (rule step)
next
  case False
  with assms(1) show ?thesis by (simp add: for_range_done)
qed

subsection \<open>64-bit arithmetic\<close>

lemma int64_id: "- (2 ^ 63) \<le> x \<Longrightarrow> x < 2 ^ 63 \<Longrightarrow> int64 x = x"
  by (simp add: int64_def signed_take_bit_int_eq_self)

lemma int64_nonneg: "0 \<le> x \<Longrightarrow> x < 2 ^ 63 \<Longrightarrow> int64 x = x"
  by (simp add: int64_id)

lemma int64_is_int64: "is_int64 x \<Longrightarrow> int64 x = x"
  by (simp add: is_int64_def int64_id)

lemma int64_0: "int64 0 = 0"
  by (simp add: int64_def)

subsection \<open>Pixel indices of RGB24\<close>

lemma pixel_index_bounds:
  fixes x y W H :: int
  assumes "0 \<le> x" "x < W" "0 \<le> y" "y < H"
  shows "0 \<le> y * W" and "0 \<le> y * W + x" and "y * W + x + 1 \<le> W * H"
proof -
  from assms show "0 \<le> y * W" by simp
  from assms show "0 \<le> y * W + x" by simp
  have "(y + 1) * W \<le> H * W"
    using assms by (intro mult_right_mono) simp_all
  with assms show "y * W + x + 1 \<le> W * H"
    by (simp add: algebra_simps)
qed

lemma RGB24_copy_pixel_ok:
  assumes "0 \<le> i" "i * 3 + 3 \<le> int (length buf)" "i * 4 + 4 \<le> int (length pix)"
    and "i * 4 + 4 < 2 ^ 63"
  shows "\<exists>buf'. RGB24_copy_pixel pix i buf = Inr buf' \<and> length buf' = length buf"
proof -
  have w: "int64 (i * 3) = i * 3" "int64 (i * 3 + 3) = i * 3 + 3"
    "int64 (i * 4) = i * 4" "int64 (i * 4 + 3) = i * 4 + 3"
    using assms(1,4) by (simp_all add: int64_nonneg)
  show ?thesis
    using assms(1-3)
    by (auto simp: RGB24_copy_pixel_def w slice_ok_def copy_at_def slice_def)
qed

lemma store_ok:
  "0 \<le> i \<Longrightarrow> i < int (length xs) \<Longrightarrow> store xs i v = Inr (xs[nat i := v])"
  by (simp add: store_def index_ok_def)

lemma RGB24_store_pixel_ok:
  assumes "0 \<le> i" "i * 3 + 3 \<le> int (length buf)" "i * 3 + 3 < 2 ^ 63"
  shows "\<exists>buf'. RGB24_store_pixel c i buf = Inr buf' \<and> length buf' = length buf"
proof -
  have w: "int64 (i * 3) = i * 3" "int64 (i * 3 + 1) = i * 3 + 1"
    "int64 (i * 3 + 2) = i * 3 + 2"
    using assms(1,3) by (simp_all add: int64_nonneg)
  show ?thesis
    using assms(1,2)
    by (cases c) (simp add: RGB24_store_pixel_def w store_ok)
qed

lemma RGB24_fill_alt:
  "RGB24_fill img buf =
     (let bounds = Bounds img in
      for_range
        (\<lambda>y. for_range
                (\<lambda>x buf'.
                   let i = int64 (int64 (y * Dx bounds) + x) in
                   (case img of
                      RGBA pix stride r \<Rightarrow> RGB24_copy_pixel pix i buf'
                    | Generic r at \<Rightarrow> RGB24_store_pixel (at x y) i buf'))
                (X (Min_pt bounds)) (X (Max_pt bounds)))
        (Y (Min_pt bounds)) (Y (Max_pt bounds)) buf)"
  by (cases img) (simp_all add: RGB24_fill_def Let_def)

lemma RGB24_fill_ok:
  assumes origin: "Min_pt (Bounds img) = \<lparr>X = 0, Y = 0\<rparr>"
    and pixels: "holds_pixels img"
    and ints: "is_int64 (X (Max_pt (Bounds img)))" "is_int64 (Y (Max_pt (Bounds img)))"
    and fits: "0 < X (Max_pt (Bounds img)) \<Longrightarrow> 0 < Y (Max_pt (Bounds img)) \<Longrightarrow>
      X (Max_pt (Bounds img)) * Y (Max_pt (Bounds img)) * 4 < 2 ^ 63 \<and>
      int (length buf) = X (Max_pt (Bounds img)) * Y (Max_pt (Bounds img)) * 3"
  shows "\<exists>buf'. RGB24_fill img buf = Inr buf' \<and> length buf' = length buf"
proof -
  let ?W = "X (Max_pt (Bounds img))" and ?H = "Y (Max_pt (Bounds img))"
  let ?body = "\<lambda>y x buf'. let i = int64 (int64 (y * ?W) + x) in
      (case img of
         RGBA pix stride r \<Rightarrow> RGB24_copy_pixel pix i buf'
       | Generic r at \<Rightarrow> RGB24_store_pixel (at x y) i buf')"
  have dx: "Dx (Bounds img) = ?W" and dy: "Dy (Bounds img) = ?H"
    using ints by (simp_all add: Dx_def Dy_def origin int64_is_int64)
  have pixel: "\<exists>t'. ?body y x t = Inr t' \<and> length t' = length buf"
    if "0 \<le> y" "y < ?H" "0 \<le> x" "x < ?W" "length t = length buf" for x y t
  proof -
    from that have pos: "0 < ?W" "0 < ?H" by simp_all
    from fits [OF pos] have area: "?W * ?H * 4 < 2 ^ 63"
      and len: "int (length buf) = ?W * ?H * 3" by simp_all
    from pixel_index_bounds [OF that(3,4,1,2)]
    have i: "0 \<le> y * ?W" "0 \<le> y * ?W + x" "y * ?W + x + 1 \<le> ?W * ?H" .
    from i that(3) area have "y * ?W < 2 ^ 63" "y * ?W + x < 2 ^ 63" by simp_all
    with i have w: "int64 (y * ?W) = y * ?W" "int64 (y * ?W + x) = y * ?W + x"
      by (simp_all add: int64_nonneg)
    from i have b: "(y * ?W + x) * 3 + 3 \<le> int (length t)"
      using len that(5) by simp
    from i area have c: "(y * ?W + x) * 4 + 4 < 2 ^ 63" "(y * ?W + x) * 3 + 3 < 2 ^ 63"
      by simp_all
    show ?thesis
      unfolding Let_def w
    proof (cases img)
      case (RGBA pix stride r)
      with pixels have "4 * ?W * ?H \<le> int (length pix)" using dx dy by simp
      with i have "(y * ?W + x) * 4 + 4 \<le> int (length pix)" by simp
      from RGB24_copy_pixel_ok [OF i(2) b this c(1)] that(5) RGBA
      show "\<exists>t'. (case img of
            RGBA pix stride r \<Rightarrow> RGB24_copy_pixel pix (y * ?W + x) t
          | Generic r at \<Rightarrow> RGB24_store_pixel (at x y) (y * ?W + x) t) = Inr t' \<and>
          length t' = length buf"
        by simp
    next
      case (Generic r at)
      from RGB24_store_pixel_ok [OF i(2) b c(2)] that(5) Generic
      show "\<exists>t'. (case img of
            RGBA pix stride r \<Rightarrow> RGB24_copy_pixel pix (y * ?W + x) t
          | Generic r at \<Rightarrow> RGB24_store_pixel (at x y) (y * ?W + x) t) = Inr t' \<and>
          length t' = length buf"
        by simp
    qed
  qed
  have row: "\<exists>t'. for_range (?body y) 0 ?W t = Inr t' \<and> length t' = length buf"
    if "0 \<le> y" "y < ?H" "length t = length buf" for y t
    by (rule for_range_invariant [where P = "\<lambda>t. length t = length buf"])
      (use that pixel in simp_all)
  have "\<exists>buf'. for_range (\<lambda>y. for_range (?body y) 0 ?W) 0 ?H buf = Inr buf' \<and>
      length buf' = length buf"
    by (rule for_range_invariant [where P = "\<lambda>t. length t = length buf"])
      (use row in simp_all)
  then show ?thesis
    unfolding RGB24_fill_alt Let_def dx origin by simp
qed

lemma make_bytes_ok:
  "0 \<le> n \<Longrightarrow> n \<le> maxAlloc \<Longrightarrow> make_bytes n = Inr (replicate (nat n) 0)"
  by (simp add: make_bytes_def not_less)

lemma make_bytes_cases:
  "make_bytes n = Inl MakeSliceLenOutOfRange \<and> (n < 0 \<or> maxAlloc < n) \<or>
   make_bytes n = Inr (replicate (nat n) 0) \<and> 0 \<le> n \<and> n \<le> maxAlloc"
  by (auto simp: make_bytes_def)

lemma RGB24Format_Encode_ok:
  assumes origin: "Min_pt (Bounds img) = \<lparr>X = 0, Y = 0\<rparr>"
    and pixels: "holds_pixels img"
    and fits: "fits_int img"
  shows "RGB24Format_Encode Write w img = Inl MakeSliceLenOutOfRange \<and>
           (Dx (Bounds img) < 0 \<or> Dy (Bounds img) < 0 \<or>
            maxAlloc < Dx (Bounds img) * Dy (Bounds img) * 3) \<or>
         (\<exists>buf. RGB24Format_Encode Write w img = Inr (Write w buf) \<and>
            (0 \<le> Dx (Bounds img) \<and> 0 \<le> Dy (Bounds img) \<longrightarrow>
               int (length buf) = Dx (Bounds img) * Dy (Bounds img) * 3))"
proof -
  let ?W = "X (Max_pt (Bounds img))" and ?H = "Y (Max_pt (Bounds img))"
  let ?n = "int64 (int64 (?W * ?H) * 3)"
  from fits origin have ints: "is_int64 ?W" "is_int64 ?H"
    and area: "0 < ?W \<Longrightarrow> 0 < ?H \<Longrightarrow> ?W * ?H * 3 < 2 ^ 63"
    by (simp_all add: fits_int_def Let_def)
  have dx: "Dx (Bounds img) = ?W" and dy: "Dy (Bounds img) = ?H"
    using ints by (simp_all add: Dx_def Dy_def origin int64_is_int64)
  have n: "?n = ?W * ?H * 3" if "0 \<le> ?W" "0 \<le> ?H"
  proof (cases "0 < ?W \<and> 0 < ?H")
    case True
    then have "0 < ?W * ?H" by simp
    with area True have "0 \<le> ?W * ?H" "?W * ?H < 2 ^ 63" "?W * ?H * 3 < 2 ^ 63" by simp_all
    then show ?thesis by (simp add: int64_nonneg)
  next
    case False
    with that have "?W * ?H = 0" by auto
    then show ?thesis by (simp only: int64_0 mult_zero_left)
  qed
  consider (panics) "make_bytes ?n = Inl MakeSliceLenOutOfRange" "?n < 0 \<or> maxAlloc < ?n"
    | (made) "make_bytes ?n = Inr (replicate (nat ?n) 0)" "0 \<le> ?n" "?n \<le> maxAlloc"
    using make_bytes_cases [of ?n] by blast
  then show ?thesis
  proof cases
    case panics
    note mk = panics(1) and bad = panics(2)
    have "?W < 0 \<or> ?H < 0 \<or> maxAlloc < ?W * ?H * 3"
    proof (rule ccontr)
      assume "\<not> (?W < 0 \<or> ?H < 0 \<or> maxAlloc < ?W * ?H * 3)"
      then have nonneg: "0 \<le> ?W" "0 \<le> ?H" and le: "?W * ?H * 3 \<le> maxAlloc" by simp_all
      define m where "m = ?W * ?H * 3"
      from nonneg have "0 \<le> m" by (simp add: m_def)
      moreover from le have "m \<le> maxAlloc" by (simp add: m_def)
      moreover from n [OF nonneg] bad have "m < 0 \<or> maxAlloc < m" by (simp only: m_def)
      ultimately show False by linarith
    qed
    with mk show ?thesis
      by (simp add: RGB24Format_Encode_def Let_def dx dy)
  next
    case made
    note mk = made(1) and range = made(2,3)
    have "\<exists>buf'. RGB24_fill img (replicate (nat ?n) 0) = Inr buf' \<and>
        length buf' = length (replicate (nat ?n) (0::byte))"
    proof (rule RGB24_fill_ok [OF origin pixels ints])
      assume pos: "0 < ?W" "0 < ?H"
      then have "?n = ?W * ?H * 3" by (intro n) simp_all
      with range show "?W * ?H * 4 < 2 ^ 63 \<and>
          int (length (replicate (nat ?n) (0::byte))) = ?W * ?H * 3"
        by (simp add: maxAlloc_def)
    qed
    then obtain buf' where fill: "RGB24_fill img (replicate (nat ?n) 0) = Inr buf'"
      and len: "length buf' = nat ?n" by auto
    have "0 \<le> ?W \<and> 0 \<le> ?H \<longrightarrow> int (length buf') = ?W * ?H * 3"
      using n len range by auto
    with mk fill show ?thesis
      by (auto simp: RGB24Format_Encode_def Let_def dx dy)
  qed
qed

subsection \<open>Filling a buffer pixel by pixel\<close>

lemma raster_fill:
  fixes W H :: nat
  assumes body: "\<And>x y. x < W \<Longrightarrow> y < H \<Longrightarrow>
      body (int y) (int x) (pref (y * W + x)) = Inr (pref (Suc (y * W + x)))"
  shows "for_range (\<lambda>y. for_range (body y) 0 (int W)) 0 (int H) (pref 0) = Inr (pref (H * W))"
proof -
  have row: "\<exists>t'. for_range (body (int y)) 0 (int W) (pref (y * W)) = Inr t' \<and>
      t' = pref (y * W + nat (int W))" if "y < H" for y
  proof (rule for_range_rule [where P = "\<lambda>j t. t = pref (y * W + nat j)"])
    fix j :: int and t
    assume "0 \<le> j" "j < int W" "t = pref (y * W + nat j)"
    moreover from this have "nat j < W" by simp
    ultimately show "\<exists>t'. body (int y) j t = Inr t' \<and> t' = pref (y * W + nat (j + 1))"
      using body [OF \<open>nat j < W\<close> that] by (simp add: nat_add_distrib)
  qed simp_all
  have "\<exists>t'. for_range (\<lambda>y. for_range (body y) 0 (int W)) 0 (int H) (pref 0) = Inr t' \<and>
      t' = pref (nat (int H) * W)"
  proof (rule for_range_rule [where P = "\<lambda>j t. t = pref (nat j * W)"])
    fix j :: int and t
    assume j: "0 \<le> j" "j < int H" "t = pref (nat j * W)"
    then have "nat j < H" by simp
    from row [OF this] j
    show "\<exists>t'. for_range (body j) 0 (int W) t = Inr t' \<and> t' = pref (nat (j + 1) * W)"
      by (simp add: nat_add_distrib add.commute)
  qed simp_all
  then show ?thesis by simp
qed

lemma length_concat_replicate: "length (concat (replicate k xs)) = k * length xs"
  by (induction k) simp_all

lemma concat_replicate_Suc: "concat (replicate (Suc k) xs) = concat (replicate k xs) @ xs"
  by (induction k) simp_all

lemma copy_at_progress:
  assumes "k < N" and "length pixel = n"
  shows "copy_at (concat (replicate k pixel) @ replicate (n * (N - k)) z) (int (k * n)) pixel =
         concat (replicate (Suc k) pixel) @ replicate (n * (N - Suc k)) z"
proof -
  have "n * (N - k) = n + n * (N - Suc k)"
    using assms(1) by (metis Suc_diff_Suc mult_Suc_right)
  then show ?thesis
    using assms(2)
    by (simp add: copy_at_def length_concat_replicate concat_replicate_Suc nat_mult_distrib
        del: replicate.simps concat.simps replicate_Suc)
qed

lemma three_stores:
  assumes "i + 3 \<le> length buf"
  shows "buf[i := a, Suc i := b, Suc (Suc i) := c] = take i buf @ [a, b, c] @ drop (i + 3) buf"
  using assms
  by (intro nth_equalityI) (auto simp: nth_append nth_list_update less_Suc_eq_0_disj nth_Cons')

lemma RGB24_store_pixel_copy:
  assumes "0 \<le> i" "i * 3 + 3 \<le> int (length buf)" "i * 3 + 3 < 2 ^ 63"
  shows "RGB24_store_pixel (r, g, b, a) i buf =
         Inr (copy_at buf (i * 3) [ucast (drop_bit 8 r), ucast (drop_bit 8 g), ucast (drop_bit 8 b)])"
proof -
  have w: "int64 (i * 3) = i * 3" "int64 (i * 3 + 1) = i * 3 + 1"
    "int64 (i * 3 + 2) = i * 3 + 2"
    using assms(1,3) by (simp_all add: int64_nonneg)
  have n: "nat (i * 3 + 1) = Suc (nat (i * 3))" "nat (i * 3 + 2) = Suc (Suc (nat (i * 3)))"
    using assms(1) by simp_all
  have "nat (i * 3) + 3 \<le> length buf" using assms by simp
  from three_stores [OF this] show ?thesis
    using assms(1,2) by (simp add: RGB24_store_pixel_def w store_ok n copy_at_def eval_nat_numeral)
qed

subsection \<open>Frames of one colour\<close>

lemma raster_index_less:
  fixes x y W H :: nat
  assumes "x < W" "y < H"
  shows "y * W + x < H * W"
proof -
  have "y * W + x < y * W + W" using assms(1) by simp
  also have "\<dots> = Suc y * W" by simp
  also have "\<dots> \<le> H * W" using assms(2) by (intro mult_le_mono1) simp
  finally show ?thesis .
qed

lemma drop_concat_replicate:
  "length xs = n \<Longrightarrow> k \<le> N \<Longrightarrow>
   drop (k * n) (concat (replicate N xs)) = concat (replicate (N - k) xs)"
proof (induction k arbitrary: N)
  case 0
  then show ?case by simp
next
  case (Suc k)
  then obtain M where N: "N = Suc M" by (cases N) auto
  with Suc.prems have "k \<le> M" by simp
  have split: "drop (Suc k * n) ys = drop (k * n) (drop n ys)" for ys :: "'a list"
    by (simp add: add.commute)
  have "drop n (xs @ concat (replicate M xs)) = concat (replicate M xs)"
    using Suc.prems(1) by simp
  then have "drop (Suc k * n) (concat (replicate N xs)) = drop (k * n) (concat (replicate M xs))"
    unfolding N split by simp
  also have "\<dots> = concat (replicate (M - k) xs)"
    by (rule Suc.IH [OF Suc.prems(1) \<open>k \<le> M\<close>])
  finally show ?case by (simp add: N)
qed

lemma slice_solid:
  assumes "k < N"
  shows "slice (concat (replicate N [r, g, b, a])) (int k * 4) (int k * 4 + 3) = [r, g, b]"
proof -
  from assms obtain M where M: "N - k = Suc M" by (cases "N - k") auto
  have "length [r, g, b, a] = 4" by simp
  from drop_concat_replicate [OF this, of k N] assms
  have "drop (k * 4) (concat (replicate N [r, g, b, a])) = concat (replicate (Suc M) [r, g, b, a])"
    by (simp only: M less_imp_le)
  moreover have "nat (int k * 4) = k * 4" by (simp add: nat_mult_distrib)
  ultimately show ?thesis
    by (simp add: slice_def)
qed

lemma solid_prefix_length:
  "k \<le> N \<Longrightarrow> length (concat (replicate k pixel) @ replicate (length pixel * (N - k)) z) =
     N * length pixel"
  by (simp add: length_concat_replicate algebra_simps flip: mult_Suc)

lemma RGB24_copy_pixel_solid:
  assumes k: "k < N" and fits: "int N * 4 < 2 ^ 63"
  shows "RGB24_copy_pixel (concat (replicate N [r, g, b, a])) (int k)
           (concat (replicate k [r, g, b]) @ replicate (3 * (N - k)) 0) =
         Inr (concat (replicate (Suc k) [r, g, b]) @ replicate (3 * (N - Suc k)) 0)"
proof -
  let ?pref = "\<lambda>k. concat (replicate k [r, g, b]) @ replicate (3 * (N - k)) (0::byte)"
  have w: "int64 (int k * 3) = int k * 3" "int64 (int k * 3 + 3) = int k * 3 + 3"
    "int64 (int k * 4) = int k * 4" "int64 (int k * 4 + 3) = int k * 4 + 3"
    using k fits by (simp_all add: int64_nonneg)
  have len: "length (?pref k) = N * 3"
    using solid_prefix_length [of k N "[r, g, b]" 0] k by simp
  have 1: "slice_ok (?pref k) (int k * 3) (int k * 3 + 3)"
    unfolding slice_ok_def len using k by simp
  have 2: "slice_ok (concat (replicate N [r, g, b, a])) (int k * 4) (int k * 4 + 3)"
    using k by (simp add: slice_ok_def length_concat_replicate)
  have 3: "copy_at (?pref k) (int k * 3) [r, g, b] = ?pref (Suc k)"
    using copy_at_progress [OF k, of "[r, g, b]" 3 0] by simp
  show ?thesis
    unfolding RGB24_copy_pixel_def w
    by (simp only: 1 2 3 slice_solid [OF k] if_False not_True_eq_False)
qed

lemma raster_index_int64:
  fixes x y W H :: nat
  assumes "x < W" "y < H" and fits: "int (H * W) * 4 < 2 ^ 63"
  shows "int64 (int64 (int y * int W) + int x) = int (y * W + x)"
proof -
  from raster_index_less [OF assms(1,2)] have "int (y * W + x) < int (H * W)"
    by (simp only: of_nat_less_iff)
  with fits have "int (y * W + x) < 2 ^ 63" by simp
  moreover have "int (y * W) \<le> int (y * W + x)" by simp
  ultimately have "int64 (int (y * W)) = int (y * W)" "int64 (int (y * W + x)) = int (y * W + x)"
    by (simp_all add: int64_nonneg)
  then show ?thesis by simp
qed

lemma RGB24_fill_solid_RGBA:
  assumes fits: "int (H * W) * 4 < 2 ^ 63" and ints: "int W < 2 ^ 63"
  shows "RGB24_fill (solid_RGBA W H stride (r, g, b, a)) (replicate (3 * (H * W)) 0) =
     Inr (concat (replicate (H * W) [r, g, b]))"
proof -
  let ?pix = "concat (replicate (H * W) [r, g, b, a])"
  let ?pref = "\<lambda>k. concat (replicate k [r, g, b]) @ replicate (3 * (H * W - k)) (0::byte)"
  have step: "RGB24_copy_pixel ?pix (int64 (int64 (int y * int W) + int x)) (?pref (y * W + x)) =
      Inr (?pref (Suc (y * W + x)))" if "x < W" "y < H" for x y
    unfolding raster_index_int64 [OF that fits]
    by (rule RGB24_copy_pixel_solid [OF raster_index_less [OF that] fits])
  have "for_range (\<lambda>y. for_range (\<lambda>x. RGB24_copy_pixel ?pix (int64 (int64 (y * int W) + x)))
      0 (int W)) 0 (int H) (?pref 0) = Inr (?pref (H * W))"
    by (rule raster_fill [where pref = ?pref]) (rule step)
  moreover have "Dx (Rect 0 0 (int W) (int H)) = int W"
    using ints by (simp add: Dx_def Rect_def int64_nonneg)
  ultimately show ?thesis
    by (simp add: RGB24_fill_def solid_RGBA_def Let_def mult.commute [of W H]) (simp add: Rect_def)
qed

lemma RGB24_store_pixel_solid:
  assumes k: "k < N" and fits: "int N * 4 < 2 ^ 63"
  shows "RGB24_store_pixel (r, g, b, a) (int k)
           (concat (replicate k [ucast (drop_bit 8 r), ucast (drop_bit 8 g), ucast (drop_bit 8 b)])
              @ replicate (3 * (N - k)) 0) =
         Inr (concat (replicate (Suc k)
                [ucast (drop_bit 8 r), ucast (drop_bit 8 g), ucast (drop_bit 8 b)])
              @ replicate (3 * (N - Suc k)) 0)"
proof -
  let ?p = "[ucast (drop_bit 8 r), ucast (drop_bit 8 g), ucast (drop_bit 8 b)] :: byte list"
  let ?pref = "\<lambda>k. concat (replicate k ?p) @ replicate (3 * (N - k)) (0::byte)"
  have len: "length (?pref k) = N * 3"
    using solid_prefix_length [of k N ?p 0] k by simp
  have "int k * 3 + 3 \<le> int (length (?pref k))"
    unfolding len using k by simp
  moreover have "int k * 3 + 3 < 2 ^ 63"
    using k fits by simp
  ultimately
  have "RGB24_store_pixel (r, g, b, a) (int k) (?pref k) = Inr (copy_at (?pref k) (int k * 3) ?p)"
    by (intro RGB24_store_pixel_copy) simp_all
  also have "copy_at (?pref k) (int k * 3) ?p = ?pref (Suc k)"
    using copy_at_progress [OF k, of ?p 3 0] by simp
  finally show ?thesis .
qed

lemma RGB24_fill_solid_Generic:
  assumes fits: "int (H * W) * 4 < 2 ^ 63" and ints: "int W < 2 ^ 63"
  shows "RGB24_fill (solid_Generic W H (r, g, b, a)) (replicate (3 * (H * W)) 0) =
     Inr (concat (replicate (H * W)
            [ucast (drop_bit 8 r), ucast (drop_bit 8 g), ucast (drop_bit 8 b)]))"
proof -
  let ?p = "[ucast (drop_bit 8 r), ucast (drop_bit 8 g), ucast (drop_bit 8 b)] :: byte list"
  let ?pref = "\<lambda>k. concat (replicate k ?p) @ replicate (3 * (H * W - k)) (0::byte)"
  have step: "RGB24_store_pixel (r, g, b, a) (int64 (int64 (int y * int W) + int x))
      (?pref (y * W + x)) = Inr (?pref (Suc (y * W + x)))" if "x < W" "y < H" for x y
    unfolding raster_index_int64 [OF that fits]
    by (rule RGB24_store_pixel_solid [OF raster_index_less [OF that] fits])
  have "for_range (\<lambda>y. for_range
      (\<lambda>x. RGB24_store_pixel (r, g, b, a) (int64 (int64 (y * int W) + x))) 0 (int W))
      0 (int H) (?pref 0) = Inr (?pref (H * W))"
    by (rule raster_fill [where pref = ?pref]) (rule step)
  moreover have "Dx (Rect 0 0 (int W) (int H)) = int W"
    using ints by (simp add: Dx_def Rect_def int64_nonneg)
  ultimately show ?thesis
    by (simp add: RGB24_fill_def solid_Generic_def Let_def) (simp add: Rect_def)
qed

lemma Draw_pixel_solid:
  assumes k: "k < N" and fits: "int N * 4 < 2 ^ 63"
  shows "Draw_pixel (Generic bnd (\<lambda>x y. (r, g, b, a))) sx sy (int k * 4)
           (concat (replicate k [over 0 r a, over 0 g a, over 0 b a, over 0 a a])
              @ replicate (4 * (N - k)) 0) =
         Inr (concat (replicate (Suc k) [over 0 r a, over 0 g a, over 0 b a, over 0 a a])
              @ replicate (4 * (N - Suc k)) 0)"
proof -
  let ?p = "[over 0 r a, over 0 g a, over 0 b a, over 0 a a]"
  let ?pref = "\<lambda>k. concat (replicate k ?p) @ replicate (4 * (N - k)) (0::byte)"
  have w: "int64 (int k * 4 + 4) = int k * 4 + 4"
    using k fits by (simp add: int64_nonneg)
  have len: "length (?pref k) = N * 4"
    using solid_prefix_length [of k N ?p 0] k by simp
  have lenp: "length (concat (replicate k ?p)) = k * 4"
    by (simp add: length_concat_replicate)
  have ok: "slice_ok (?pref k) (int k * 4) (int k * 4 + 4)"
    unfolding slice_ok_def len using k by simp
  have nth: "?pref k ! (k * 4 + j) = 0" if "j < 4" for j
    using that k by (simp add: nth_append lenp del: replicate.simps concat.simps)
  have n: "nat (int k * 4) = k * 4" "nat (int k * 4 + 1) = k * 4 + 1"
    "nat (int k * 4 + 2) = k * 4 + 2" "nat (int k * 4 + 3) = k * 4 + 3"
    by (simp_all add: nat_mult_distrib nat_add_distrib)
  have z: "?pref k ! nat (int k * 4) = 0" "?pref k ! nat (int k * 4 + 1) = 0"
    "?pref k ! nat (int k * 4 + 2) = 0" "?pref k ! nat (int k * 4 + 3) = 0"
    unfolding n using nth [of 0] nth [of 1] nth [of 2] nth [of 3] by simp_all
  have "copy_at (?pref k) (int k * 4) ?p = ?pref (Suc k)"
    using copy_at_progress [OF k, of ?p 4 0] by simp
  then show ?thesis
    unfolding Draw_pixel_def At.simps w
    by (simp only: ok z sum.case prod.case not_True_eq_False if_False)
qed

lemma Intersect_self_nonempty:
  "0 < W \<Longrightarrow> 0 < H \<Longrightarrow> Intersect (Rect 0 0 W H) (Rect 0 0 W H) = Rect 0 0 W H"
  by (simp add: Intersect_def Rect_def Empty_rect_def Let_def)

lemma Intersect_self_empty:
  "W = 0 \<or> H = 0 \<Longrightarrow> 0 \<le> W \<Longrightarrow> 0 \<le> H \<Longrightarrow>
   Intersect (Rect 0 0 W H) (Rect 0 0 W H) = Rect 0 0 0 0"
  by (auto simp: Intersect_def Rect_def Empty_rect_def Let_def)

lemma Intersect_zero: "Intersect (Rect 0 0 0 0) r = Rect 0 0 0 0"
  by (auto simp: Intersect_def Rect_def Empty_rect_def Let_def min_def max_def)

lemma PixOffset_solid:
  fixes x y W H :: nat
  assumes "x < W" "y < H" and fits: "int (H * W) * 4 < 2 ^ 63"
  shows "PixOffset (4 * int W) (Rect 0 0 (int W) (int H)) (int x) (int y) = int (y * W + x) * 4"
proof -
  define K where "K = int (y * W + x) * 4"
  define A where "A = int y * (4 * int W)"
  define B where "B = int x * 4"
  from raster_index_less [OF assms(1,2)] have "int (y * W + x) < int (H * W)"
    by (simp only: of_nat_less_iff)
  with fits have lt: "K < 2 ^ 63"
    unfolding K_def by simp
  have K: "A + B = K"
    by (simp add: K_def A_def B_def)
  have nonneg: "0 \<le> A" "0 \<le> B" "0 \<le> int x" "0 \<le> int y"
    by (simp_all add: A_def B_def)
  have "0 < W" using assms(1) by simp
  then have "int y \<le> A"
    unfolding A_def by (cases W) (simp_all add: algebra_simps)
  moreover have "int x \<le> B"
    unfolding B_def by simp
  ultimately have small: "int y < 2 ^ 63" "int x < 2 ^ 63" "A < 2 ^ 63" "B < 2 ^ 63"
    "A + B < 2 ^ 63"
    using lt K nonneg by linarith+
  have "int64 (int y) = int y" "int64 (int x) = int x" "int64 A = A" "int64 B = B"
    "int64 (A + B) = A + B"
    using small nonneg by (simp_all add: int64_nonneg)
  then have "int64 (int64 (int64 (int y - 0) * (4 * int W)) + int64 (int64 (int x - 0) * 4)) = K"
    by (simp add: K flip: A_def B_def)
  then show ?thesis
    by (simp add: PixOffset_def Rect_def K_def)
qed

lemma Draw_Over_solid:
  assumes fits: "int (H * W) * 4 < 2 ^ 63" and ints: "int W < 2 ^ 63" "int H < 2 ^ 63"
  shows "Draw_Over (RGBA (replicate (4 * (H * W)) 0) (4 * int W) (Rect 0 0 (int W) (int H)))
      (Rect 0 0 (int W) (int H)) (solid_Generic W H (r, g, b, a)) \<lparr>X = 0, Y = 0\<rparr> =
   Inr (RGBA (concat (replicate (H * W) [over 0 r a, over 0 g a, over 0 b a, over 0 a a]))
          (4 * int W) (Rect 0 0 (int W) (int H)))"
proof -
  have add: "Add_rect (Rect 0 0 (int W) (int H)) (int64 0) (int64 0) = Rect 0 0 (int W) (int H)"
    using ints by (simp add: Add_rect_def Rect_def int64_0 int64_nonneg)
  show ?thesis
  proof (cases "W = 0 \<or> H = 0")
    case True
    then have "Intersect (Rect 0 0 (int W) (int H)) (Rect 0 0 (int W) (int H)) = Rect 0 0 0 0"
      by (intro Intersect_self_empty) auto
    with add have "Draw_Over (RGBA (replicate (4 * (H * W)) 0) (4 * int W) (Rect 0 0 (int W) (int H)))
        (Rect 0 0 (int W) (int H)) (solid_Generic W H (r, g, b, a)) \<lparr>X = 0, Y = 0\<rparr> =
      Inr (RGBA (replicate (4 * (H * W)) 0) (4 * int W) (Rect 0 0 (int W) (int H)))"
      by (simp add: Draw_Over_def solid_Generic_def Intersect_zero Let_def)
        (simp add: Rect_def for_range_done)
    moreover have "H * W = 0" using True by auto
    ultimately show ?thesis by (simp only: mult_0_right replicate_0 concat.simps)
  next
    case False
    let ?p = "[over 0 r a, over 0 g a, over 0 b a, over 0 a a]"
    let ?pref = "\<lambda>k. concat (replicate k ?p) @ replicate (4 * (H * W - k)) (0::byte)"
    let ?src = "Generic (Rect 0 0 (int W) (int H)) (\<lambda>x y. (r, g, b, a))"
    have inter: "Intersect (Rect 0 0 (int W) (int H)) (Rect 0 0 (int W) (int H)) =
        Rect 0 0 (int W) (int H)"
      using False by (intro Intersect_self_nonempty) auto
    have step: "Draw_pixel ?src (int64 (int64 (0 + int x) - 0)) (int64 (int64 (0 + int y) - 0))
        (PixOffset (4 * int W) (Rect 0 0 (int W) (int H)) (int x) (int y)) (?pref (y * W + x)) =
        Inr (?pref (Suc (y * W + x)))" if "x < W" "y < H" for x y
      unfolding PixOffset_solid [OF that fits]
      by (rule Draw_pixel_solid [OF raster_index_less [OF that]]) (use fits in simp)
    have "for_range (\<lambda>y. for_range
        (\<lambda>x. Draw_pixel ?src (int64 (int64 (0 + x) - 0)) (int64 (int64 (0 + y) - 0))
                (PixOffset (4 * int W) (Rect 0 0 (int W) (int H)) x y)) 0 (int W))
        0 (int H) (?pref 0) = Inr (?pref (H * W))"
      by (rule raster_fill [where pref = ?pref]) (rule step)
    then show ?thesis
      by (simp add: Draw_Over_def solid_Generic_def inter add Let_def)
        (simp add: Rect_def inter [unfolded Rect_def] add [unfolded Rect_def])
  qed
qed

lemma NewRGBA_solid:
  assumes "size_fits W H"
  shows "NewRGBA (Rect 0 0 (int W) (int H)) =
      Inr (RGBA (replicate (4 * (H * W)) 0) (4 * int W) (Rect 0 0 (int W) (int H)))"
proof -
  from assms have b: "int W \<le> 2 ^ 48" "int H \<le> 2 ^ 48" "4 * int W * int H \<le> 2 ^ 48"
    by (simp_all add: size_fits_def maxAlloc_def)
  then have d: "Dx (Rect 0 0 (int W) (int H)) = int W" "Dy (Rect 0 0 (int W) (int H)) = int H"
    by (simp_all add: Dx_def Dy_def Rect_def int64_nonneg)
  have m: "mul3NonNeg 4 (int W) (int H) = 4 * int W * int H"
    using b by (simp add: mul3NonNeg_def)
  have nn: "0 \<le> 4 * int W * int H" by simp
  have le: "4 * int W * int H \<le> maxAlloc"
    using assms by (simp add: size_fits_def)
  have "nat (4 * int W * int H) = 4 * (H * W)"
    by (simp add: nat_mult_distrib mult.commute)
  with make_bytes_ok [OF nn le]
  have mk: "make_bytes (4 * int W * int H) = Inr (replicate (4 * (H * W)) 0)"
    by (simp only:)
  have s: "int64 (4 * int W) = 4 * int W"
    using b by (simp add: int64_nonneg)
  show ?thesis
    by (simp add: NewRGBA_def d m mk s Let_def not_less)
qed

text \<open>
  Claim C8, as it holds. For a frame of one colour, \<open>W\<close> wide and \<open>H\<close> high, with its
  bounds starting at \<open>(0, 0)\<close>, whose width, height and byte count \<open>4 * W * H\<close> are
  within the limit of one allocation, and which is either an \<^verbatim>\<open>*image.RGBA\<close> whose
  \<^verbatim>\<open>Pix\<close> is exactly its \<open>W * H\<close> four-byte pixels or an image of another type:
  RGB24 \<^verbatim>\<open>Encode\<close> hands the sink, in a single write, the \<open>W * H\<close> three-byte pixels
  and nothing else, which are \<open>W * H * 3\<close> bytes; RGBA32 \<^verbatim>\<open>Encode\<close> hands it the
  \<open>W * H\<close> four-byte pixels and nothing else, which are \<open>W * H * 4\<close> bytes.
\<close>

theorem raw_Encode_solid:
  "size_fits W H \<longrightarrow>
   RGB24Format_Encode Write w (solid_RGBA W H stride (r, g, b, a)) =
     Inr (Write w (concat (replicate (W * H) [r, g, b]))) \<and>
   RGB24Format_Encode Write w (solid_Generic W H (r', g', b', a')) =
     Inr (Write w (concat (replicate (W * H)
            [ucast (drop_bit 8 r'), ucast (drop_bit 8 g'), ucast (drop_bit 8 b')]))) \<and>
   RGBA32Format_Encode Write w (solid_RGBA W H stride (r, g, b, a)) =
     Inr (Write w (concat (replicate (W * H) [r, g, b, a]))) \<and>
   RGBA32Format_Encode Write w (solid_Generic W H (r', g', b', a')) =
     Inr (Write w (concat (replicate (W * H)
            [over 0 r' a', over 0 g' a', over 0 b' a', over 0 a' a']))) \<and>
   length (concat (replicate (W * H) [x1, x2, x3 :: byte])) = W * H * 3 \<and>
   length (concat (replicate (W * H) [x1, x2, x3, x4 :: byte])) = W * H * 4"
proof (intro impI conjI)
  assume size: "size_fits W H"
  define P where "P = int W * int H"
  from size have b: "int W \<le> 2 ^ 48" "int H \<le> 2 ^ 48" "4 * P \<le> 2 ^ 48"
    by (simp_all add: size_fits_def maxAlloc_def P_def)
  have P: "0 \<le> P" by (simp add: P_def)
  from b(3) P have small: "P < 2 ^ 63" "P * 3 < 2 ^ 63" "P * 3 \<le> 2 ^ 48" "P * 4 < 2 ^ 63"
    by simp_all
  have "int (H * W) = P" by (simp add: P_def)
  with small b have fits: "int (H * W) * 4 < 2 ^ 63" and ints: "int W < 2 ^ 63" "int H < 2 ^ 63"
    by simp_all
  have dims: "Dx (Bounds (solid_RGBA W H stride (r, g, b, a))) = int W"
    "Dy (Bounds (solid_RGBA W H stride (r, g, b, a))) = int H"
    "Dx (Bounds (solid_Generic W H (r', g', b', a'))) = int W"
    "Dy (Bounds (solid_Generic W H (r', g', b', a'))) = int H"
    using ints by (simp_all add: solid_RGBA_def solid_Generic_def Rect_def Dx_def Dy_def int64_nonneg)
  from P small have "int64 P = P" "int64 (P * 3) = P * 3"
    by (simp_all add: int64_nonneg)
  then have n: "int64 (int64 (int W * int H) * 3) = int W * int H * 3"
    by (simp add: P_def)
  have nn: "0 \<le> P * 3" using P by simp
  have le: "P * 3 \<le> maxAlloc" using small by (simp add: maxAlloc_def)
  have "nat (P * 3) = 3 * (H * W)"
    by (simp add: P_def nat_mult_distrib mult.commute)
  with make_bytes_ok [OF nn le] have "make_bytes (P * 3) = Inr (replicate (3 * (H * W)) 0)"
    by (simp only:)
  then have mk: "make_bytes (int W * int H * 3) = Inr (replicate (3 * (H * W)) 0)"
    by (simp add: P_def)
  show "RGB24Format_Encode Write w (solid_RGBA W H stride (r, g, b, a)) =
      Inr (Write w (concat (replicate (W * H) [r, g, b])))"
    by (simp add: RGB24Format_Encode_def Let_def dims n mk
        RGB24_fill_solid_RGBA [OF fits ints(1)] mult.commute [of W H])
  show "RGB24Format_Encode Write w (solid_Generic W H (r', g', b', a')) =
      Inr (Write w (concat (replicate (W * H)
             [ucast (drop_bit 8 r'), ucast (drop_bit 8 g'), ucast (drop_bit 8 b')])))"
    by (simp add: RGB24Format_Encode_def Let_def dims n mk
        RGB24_fill_solid_Generic [OF fits ints(1)] mult.commute [of W H])
  show "RGBA32Format_Encode Write w (solid_RGBA W H stride (r, g, b, a)) =
      Inr (Write w (concat (replicate (W * H) [r, g, b, a])))"
    by (simp add: RGBA32Format_Encode_def solid_RGBA_def)
  have "RGBA32Format_Encode Write w (solid_Generic W H (r', g', b', a')) =
      (case Draw_Over (RGBA (replicate (4 * (H * W)) 0) (4 * int W) (Rect 0 0 (int W) (int H)))
              (Rect 0 0 (int W) (int H)) (solid_Generic W H (r', g', b', a')) \<lparr>X = 0, Y = 0\<rparr> of
         Inl p \<Rightarrow> Inl p
       | Inr rgbaImg' \<Rightarrow> Inr (Write w (Pix rgbaImg')))"
    by (simp add: RGBA32Format_Encode_def solid_Generic_def NewRGBA_solid [OF size])
  then show "RGBA32Format_Encode Write w (solid_Generic W H (r', g', b', a')) =
      Inr (Write w (concat (replicate (W * H)
             [over 0 r' a', over 0 g' a', over 0 b' a', over 0 a' a'])))"
    by (simp only: Draw_Over_solid [OF fits ints] sum.case Image.sel mult.commute [of W H])
qed (simp_all add: length_concat_replicate)

theorem raw_Encode_solid_witness:
  "size_fits 2 1 \<and>
   RGB24Format_Encode Buffer_Write [] (solid_RGBA 2 1 8 (1, 2, 3, 4)) =
     Inr (None, [1, 2, 3, 1, 2, 3]) \<and>
   RGB24Format_Encode Buffer_Write [] (solid_Generic 2 1 (0xffff, 0x8080, 0, 0xffff)) =
     Inr (None, [255, 128, 0, 255, 128, 0]) \<and>
   RGBA32Format_Encode Buffer_Write [] (solid_RGBA 2 1 8 (1, 2, 3, 4)) =
     Inr (None, [1, 2, 3, 4, 1, 2, 3, 4]) \<and>
   RGBA32Format_Encode Buffer_Write [] (solid_Generic 2 1 (0xffff, 0x8080, 0, 0xffff)) =
     Inr (None, [255, 128, 0, 255, 255, 128, 0, 255])"
proof -
  have size: "size_fits 2 1"
    by (simp add: size_fits_def maxAlloc_def)
  have over: "over 0 0xffff 0xffff = 255" "over 0 0x8080 0xffff = 128" "over 0 0 0xffff = 0"
    by code_simp+
  have cast: "(ucast (drop_bit 8 (0xffff :: uint32)) :: byte) = 255"
    "(ucast (drop_bit 8 (0x8080 :: uint32)) :: byte) = 128"
    "(ucast (drop_bit 8 (0 :: uint32)) :: byte) = 0"
    by code_simp+
  have twice: "concat (replicate 2 xs) = xs @ xs" for xs :: "byte list"
    by (simp add: eval_nat_numeral)
  show ?thesis
    using size raw_Encode_solid [where W = 2 and H = 1 and stride = 8 and Write = Buffer_Write
        and w = "[]" and r = 1 and g = 2 and b = 3 and a = 4
        and r' = "0xffff" and g' = "0x8080" and b' = 0 and a' = "0xffff"]
    by (simp add: Buffer_Write_def over cast twice)
qed

text \<open>
  Claim C8 does not hold of every solid frame. The column \<open>(0,0)-(1,2)\<close> of a
  two-by-two \<^verbatim>\<open>*image.RGBA\<close> of one colour, as \<^verbatim>\<open>SubImage\<close> gives it, keeps the stride 8
  and the 16 bytes of \<^verbatim>\<open>Pix\<close> from its first pixel on: RGBA32 \<^verbatim>\<open>Encode\<close> writes all 16
  bytes for a frame of \<open>1 * 2 * 4 = 8\<close>. The one-pixel \<^verbatim>\<open>*image.RGBA\<close> with bounds
  \<open>(1,0)-(2,1)\<close> makes RGB24 \<^verbatim>\<open>Encode\<close> panic. A frame of another image type that is
  \<open>2^32\<close> wide and high makes both encoders panic, because \<open>W * H * 3\<close> wraps to 0 and
  \<open>4 * W * H\<close> does not fit an \<^verbatim>\<open>int\<close>; one that is \<open>2^25\<close> wide and high is beyond
  the limit of \<^verbatim>\<open>make\<close>.
\<close>

theorem raw_Encode_sub_image:
  "RGBA32Format_Encode Buffer_Write [] (RGBA (concat (replicate 4 [9, 9, 9, 255])) 8 (Rect 0 0 1 2)) =
     Inr (None, concat (replicate 4 [9, 9, 9, 255])) \<and>
   length (concat (replicate 4 [9, 9, 9, 255 :: byte])) = 16 \<and>
   Dx (Rect 0 0 1 2) * Dy (Rect 0 0 1 2) * 4 = 8 \<and>
   RGB24Format_Encode Buffer_Write [] (RGBA [9, 9, 9, 255] 4 (Rect 1 0 2 1)) =
     Inl SliceBoundsOutOfRange \<and>
   RGB24Format_Encode Buffer_Write [] (solid_Generic (2 ^ 32) (2 ^ 32) (0xffff, 0, 0, 0xffff)) =
     Inl IndexOutOfRange \<and>
   RGBA32Format_Encode Buffer_Write [] (solid_Generic (2 ^ 32) (2 ^ 32) (0xffff, 0, 0, 0xffff)) =
     Inl HugeOrNegativeDimensions \<and>
   RGB24Format_Encode Buffer_Write [] (solid_Generic (2 ^ 25) (2 ^ 25) (0xffff, 0, 0, 0xffff)) =
     Inl MakeSliceLenOutOfRange"
proof (intro conjI)
  have first: "0 < hi \<Longrightarrow> body 0 s = Inl p \<Longrightarrow> for_range body 0 hi s = Inl p"
    for body :: "int \<Rightarrow> byte list \<Rightarrow> panic + byte list" and hi s p
    by (simp add: for_range_step)
  have steps: "for_range body 0 1 s = (case body 0 s of Inl p \<Rightarrow> Inl p | Inr s' \<Rightarrow> Inr s')"
    "for_range body 1 2 s = (case body 1 s of Inl p \<Rightarrow> Inl p | Inr s' \<Rightarrow> Inr s')"
    for body :: "int \<Rightarrow> byte list \<Rightarrow> panic + byte list" and s
    by (simp_all add: for_range_step for_range_done split: sum.splits)
  show "RGBA32Format_Encode Buffer_Write [] (RGBA (concat (replicate 4 [9, 9, 9, 255])) 8 (Rect 0 0 1 2)) =
      Inr (None, concat (replicate 4 [9, 9, 9, 255]))"
    by (simp add: RGBA32Format_Encode_def Buffer_Write_def)
  show "length (concat (replicate 4 [9, 9, 9, 255 :: byte])) = 16"
    by (simp add: length_concat_replicate)
  show "Dx (Rect 0 0 1 2) * Dy (Rect 0 0 1 2) * 4 = 8"
    by (simp add: Dx_def Dy_def Rect_def int64_def)
  show "RGB24Format_Encode Buffer_Write [] (RGBA [9, 9, 9, 255] 4 (Rect 1 0 2 1)) =
      Inl SliceBoundsOutOfRange"
    by (simp add: RGB24Format_Encode_def RGB24_fill_def make_bytes_def maxAlloc_def Let_def Rect_def
        Dx_def Dy_def int64_def steps RGB24_copy_pixel_def slice_ok_def)
  have store: "RGB24_store_pixel (0xffff, 0, 0, 0xffff) 0 [] = Inl IndexOutOfRange"
    by (simp add: RGB24_store_pixel_def store_def index_ok_def int64_0)
  have row: "for_range (\<lambda>x. RGB24_store_pixel (0xffff, 0, 0, 0xffff)
      (int64 (int64 (0 * 2 ^ 32) + x))) 0 (2 ^ 32) [] = Inl IndexOutOfRange"
    by (rule first) (simp_all add: int64_0 store)
  have "for_range (\<lambda>y. for_range (\<lambda>x. RGB24_store_pixel (0xffff, 0, 0, 0xffff)
      (int64 (int64 (y * 2 ^ 32) + x))) 0 (2 ^ 32)) 0 (2 ^ 32) [] = Inl IndexOutOfRange"
    by (rule first, simp, rule row)
  then show "RGB24Format_Encode Buffer_Write [] (solid_Generic (2 ^ 32) (2 ^ 32) (0xffff, 0, 0, 0xffff)) =
      Inl IndexOutOfRange"
    by (simp add: RGB24Format_Encode_def RGB24_fill_def solid_Generic_def Let_def Rect_def
        Dx_def Dy_def int64_def make_bytes_def maxAlloc_def)
  show "RGBA32Format_Encode Buffer_Write [] (solid_Generic (2 ^ 32) (2 ^ 32) (0xffff, 0, 0, 0xffff)) =
      Inl HugeOrNegativeDimensions"
    by (simp add: RGBA32Format_Encode_def solid_Generic_def NewRGBA_def mul3NonNeg_def Let_def
        Rect_def Dx_def Dy_def int64_def)
  have "int64 (2 ^ 25 - 0) = 2 ^ 25" "int64 (int64 (2 ^ 25 * 2 ^ 25) * 3) = 3 * 2 ^ 50"
    by (simp_all add: int64_def)
  then show "RGB24Format_Encode Buffer_Write [] (solid_Generic (2 ^ 25) (2 ^ 25) (0xffff, 0, 0, 0xffff)) =
      Inl MakeSliceLenOutOfRange"
    by (simp add: RGB24Format_Encode_def solid_Generic_def Let_def Rect_def
        Dx_def Dy_def make_bytes_def maxAlloc_def)
qed

subsection \<open>RGB24 stays in range\<close>

text \<open>
  Claim C10, as it holds. For a frame whose bounds have their minimum at \<open>(0, 0)\<close>,
  whose pixel data is all there, and whose byte count \<open>W * H * 3\<close> fits an \<^verbatim>\<open>int\<close>, the
  index \<open>i = y * width + x\<close> of RGB24 \<^verbatim>\<open>Encode\<close> stays inside the source pixels and
  inside the output buffer: the encoder raises no slice or index panic. It either stops
  at \<^verbatim>\<open>make\<close>, before any access, which happens only for a negative width or height or
  for more than \<^verbatim>\<open>maxAlloc\<close> bytes, or it writes the filled buffer, which for a width and
  height that are not negative has \<open>W * H * 3\<close> bytes. The origin is needed: the
  one-pixel frames with bounds \<open>(1,0)-(2,1)\<close> run out of range.
\<close>

theorem RGB24Format_Encode_in_range:
  "(Min_pt (Bounds img) = \<lparr>X = 0, Y = 0\<rparr> \<and> holds_pixels img \<and> fits_int img \<longrightarrow>
      RGB24Format_Encode Write w img = Inl MakeSliceLenOutOfRange \<and>
        (Dx (Bounds img) < 0 \<or> Dy (Bounds img) < 0 \<or>
         maxAlloc < Dx (Bounds img) * Dy (Bounds img) * 3) \<or>
      (\<exists>buf. RGB24Format_Encode Write w img = Inr (Write w buf) \<and>
         (0 \<le> Dx (Bounds img) \<and> 0 \<le> Dy (Bounds img) \<longrightarrow>
            int (length buf) = Dx (Bounds img) * Dy (Bounds img) * 3))) \<and>
   fits_int (Generic (Rect 1 0 2 1) at) \<and>
   RGB24Format_Encode Write w (Generic (Rect 1 0 2 1) at) = Inl IndexOutOfRange \<and>
   holds_pixels (RGBA [0, 0, 0, 0] 4 (Rect 1 0 2 1)) \<and>
   fits_int (RGBA [0, 0, 0, 0] 4 (Rect 1 0 2 1)) \<and>
   RGB24Format_Encode Write w (RGBA [0, 0, 0, 0] 4 (Rect 1 0 2 1)) = Inl SliceBoundsOutOfRange"
proof (intro conjI impI)
  assume "Min_pt (Bounds img) = \<lparr>X = 0, Y = 0\<rparr> \<and> holds_pixels img \<and> fits_int img"
  then show "RGB24Format_Encode Write w img = Inl MakeSliceLenOutOfRange \<and>
        (Dx (Bounds img) < 0 \<or> Dy (Bounds img) < 0 \<or>
         maxAlloc < Dx (Bounds img) * Dy (Bounds img) * 3) \<or>
      (\<exists>buf. RGB24Format_Encode Write w img = Inr (Write w buf) \<and>
         (0 \<le> Dx (Bounds img) \<and> 0 \<le> Dy (Bounds img) \<longrightarrow>
            int (length buf) = Dx (Bounds img) * Dy (Bounds img) * 3))"
    using RGB24Format_Encode_ok [of img Write w] by blast
next
  have steps: "for_range body 0 1 s = (case body 0 s of Inl p \<Rightarrow> Inl p | Inr s' \<Rightarrow> Inr s')"
    "for_range body 1 2 s = (case body 1 s of Inl p \<Rightarrow> Inl p | Inr s' \<Rightarrow> Inr s')"
    for body :: "int \<Rightarrow> byte list \<Rightarrow> panic + byte list" and s
    by (simp_all add: for_range_step for_range_done split: sum.splits)
  show "RGB24Format_Encode Write w (Generic (Rect 1 0 2 1) at) = Inl IndexOutOfRange"
    by (cases "at 1 0")
      (simp add: RGB24Format_Encode_def RGB24_fill_def make_bytes_def maxAlloc_def Let_def Rect_def
        Dx_def Dy_def int64_def steps RGB24_store_pixel_def store_def index_ok_def)
  show "RGB24Format_Encode Write w (RGBA [0, 0, 0, 0] 4 (Rect 1 0 2 1)) = Inl SliceBoundsOutOfRange"
    by (simp add: RGB24Format_Encode_def RGB24_fill_def make_bytes_def maxAlloc_def Let_def Rect_def
        Dx_def Dy_def int64_def steps RGB24_copy_pixel_def slice_ok_def)
qed (simp_all add: Rect_def Dx_def Dy_def int64_def fits_int_def is_int64_def)

theorem RGB24Format_Encode_in_range_witness:
  "Min_pt (Bounds (RGBA [1, 2, 3, 4, 5, 6, 7, 8] 8 (Rect 0 0 2 1))) = \<lparr>X = 0, Y = 0\<rparr> \<and>
   holds_pixels (RGBA [1, 2, 3, 4, 5, 6, 7, 8] 8 (Rect 0 0 2 1)) \<and>
   fits_int (RGBA [1, 2, 3, 4, 5, 6, 7, 8] 8 (Rect 0 0 2 1)) \<and>
   (\<exists>buf. int (length buf) = 6 \<and>
      RGB24Format_Encode Buffer_Write [] (RGBA [1, 2, 3, 4, 5, 6, 7, 8] 8 (Rect 0 0 2 1)) =
        Inr (Buffer_Write [] buf))"
proof -
  have dims: "Dx (Rect 0 0 2 1) = 2" "Dy (Rect 0 0 2 1) = 1"
    by (simp_all add: Rect_def Dx_def Dy_def int64_def)
  have pre: "Min_pt (Bounds (RGBA [1, 2, 3, 4, 5, 6, 7, 8] 8 (Rect 0 0 2 1))) = \<lparr>X = 0, Y = 0\<rparr>"
    "holds_pixels (RGBA [1, 2, 3, 4, 5, 6, 7, 8] 8 (Rect 0 0 2 1))"
    "fits_int (RGBA [1, 2, 3, 4, 5, 6, 7, 8] 8 (Rect 0 0 2 1))"
    by (simp_all add: dims) (simp_all add: Rect_def fits_int_def is_int64_def)
  show ?thesis
    using pre RGB24Format_Encode_in_range
      [of "RGBA [1, 2, 3, 4, 5, 6, 7, 8] 8 (Rect 0 0 2 1)" Buffer_Write "[]"]
    by (auto simp: dims maxAlloc_def)
qed

text \<open>
  Claim C10 does not hold of every frame at the origin. For an image of another type
  with bounds \<open>(0,0)-(2^62,4)\<close> the length \<open>W * H * 3 = 3 * 2^64\<close> wraps to 0: \<^verbatim>\<open>make\<close>
  gives an empty buffer, and the first store, at index 0, is out of range.
\<close>

theorem RGB24Format_Encode_wraps:
  "Min_pt (Bounds (solid_Generic (2 ^ 62) 4 (0, 0, 0, 0))) = \<lparr>X = 0, Y = 0\<rparr> \<and>
   holds_pixels (solid_Generic (2 ^ 62) 4 (0, 0, 0, 0)) \<and>
   RGB24Format_Encode Buffer_Write [] (solid_Generic (2 ^ 62) 4 (0, 0, 0, 0)) =
     Inl IndexOutOfRange"
proof (intro conjI)
  have first: "0 < hi \<Longrightarrow> body 0 s = Inl p \<Longrightarrow> for_range body 0 hi s = Inl p"
    for body :: "int \<Rightarrow> byte list \<Rightarrow> panic + byte list" and hi s p
    by (simp add: for_range_step)
  have store: "RGB24_store_pixel (0, 0, 0, 0) 0 [] = Inl IndexOutOfRange"
    by (simp add: RGB24_store_pixel_def store_def index_ok_def int64_0)
  have row: "for_range (\<lambda>x. RGB24_store_pixel (0, 0, 0, 0)
      (int64 (int64 (0 * 2 ^ 62) + x))) 0 (2 ^ 62) [] = Inl IndexOutOfRange"
    by (rule first) (simp_all add: int64_0 store)
  have "for_range (\<lambda>y. for_range (\<lambda>x. RGB24_store_pixel (0, 0, 0, 0)
      (int64 (int64 (y * 2 ^ 62) + x))) 0 (2 ^ 62)) 0 4 [] = Inl IndexOutOfRange"
    by (rule first, simp, rule row)
  then show "RGB24Format_Encode Buffer_Write [] (solid_Generic (2 ^ 62) 4 (0, 0, 0, 0)) =
      Inl IndexOutOfRange"
    by (simp add: RGB24Format_Encode_def RGB24_fill_def solid_Generic_def Let_def Rect_def
        Dx_def Dy_def int64_def make_bytes_def maxAlloc_def)
qed (simp_all add: solid_Generic_def Rect_def)

subsection \<open>Terminal display\<close>

lemma AnsiDisplay_Encode_instance:
  "AnsiDisplay_Encode Write f w img = Some (Inr (err, (f', w'))) \<Longrightarrow> f' = f"
  by (auto simp: AnsiDisplay_Encode_def split: option.splits sum.splits)

lemma AnsiDisplay_cell_last_row:
  assumes "Dy (Bounds img) = int64 (int64 (y * 2) + 1)"
    and "At img x (int64 (y * 2)) = Inr (r, g, b, a)"
  shows "AnsiDisplay_cell img y x buf =
     Inr (buf @ fg_escape (r div 256) (g div 256) (b div 256) @ bg_missing @ upper_half_block)"
  using assms by (simp add: AnsiDisplay_cell_def)

text \<open>
  Claim C3, evaluated on the code. One encoder that has not yet cleared the screen
  encodes the one-pixel frame \<open>px\<close> twice through \<^verbatim>\<open>Encode\<close>, into a buffer. The
  encoder comes back from the first call unchanged (\<open>initDone\<close> is still false), and the
  second frame is again preceded by the clear sequence. Through \<^verbatim>\<open>EncodeAnimation\<close> the
  same two frames give the clear sequence once and then the cursor-home sequence.
\<close>

theorem AnsiDisplay_Encode_clears_again:
  "AnsiDisplay_Encode Buffer_Write \<lparr>initDone = False\<rparr> [] px =
     Some (Inr (None, \<lparr>initDone = False\<rparr>,
       clear_sequence @ fg_escape 255 128 0 @ bg_missing @ upper_half_block @ reset_newline)) \<and>
   AnsiDisplay_Encode Buffer_Write \<lparr>initDone = False\<rparr>
       (clear_sequence @ fg_escape 255 128 0 @ bg_missing @ upper_half_block @ reset_newline) px =
     Some (Inr (None, \<lparr>initDone = False\<rparr>,
       clear_sequence @ fg_escape 255 128 0 @ bg_missing @ upper_half_block @ reset_newline @
       clear_sequence @ fg_escape 255 128 0 @ bg_missing @ upper_half_block @ reset_newline)) \<and>
   AnsiDisplay_EncodeAnimation Buffer_Write \<lparr>initDone = False\<rparr> [] (chan_of [px, px]) 0 =
     Some (Inr (None, (\<lparr>initDone = True\<rparr>,
       clear_sequence @ fg_escape 255 128 0 @ bg_missing @ upper_half_block @ reset_newline @
       home_sequence @ fg_escape 255 128 0 @ bg_missing @ upper_half_block @ reset_newline),
       Closed)) \<and>
   clear_sequence \<noteq> home_sequence"
proof -
  let ?cell = "fg_escape 255 128 0 @ bg_missing @ upper_half_block @ reset_newline"
  have first: "AnsiDisplay_frame Buffer_Write (\<lparr>initDone = False\<rparr>, b) px =
      Inr (None, \<lparr>initDone = True\<rparr>, b @ clear_sequence @ ?cell)" for b
    by (simp add: AnsiDisplay_frame_def Buffer_Write_def) code_simp
  have later: "AnsiDisplay_frame Buffer_Write (\<lparr>initDone = True\<rparr>, b) px =
      Inr (None, \<lparr>initDone = True\<rparr>, b @ home_sequence @ ?cell)" for b
    by (simp add: AnsiDisplay_frame_def Buffer_Write_def) code_simp
  have "clear_sequence \<noteq> home_sequence"
    by code_simp
  then show ?thesis
    by (simp add: AnsiDisplay_Encode_def AnsiDisplay_EncodeAnimation_def range_loop_Recv
        range_loop_Closed first later)
qed

text \<open>
  Claim C4, evaluated on the code. The frame \<open>px\<close> has height 1, so its only row has
  no partner. The background escape written for it is the literal \<^verbatim>\<open>ESC[48;2;0m\<close>,
  with one colour component; a black pixel gives \<^verbatim>\<open>ESC[48;2;0;0;0m\<close>.
\<close>

theorem AnsiDisplay_odd_row_background:
  "Dy (Bounds px) = 1 \<and>
   AnsiDisplay_cell px 0 0 [] = Inr (fg_escape 255 128 0 @ bg_missing @ upper_half_block) \<and>
   bg_missing = bytes_of ([ESC] @ ''[48;2;0m'') \<and>
   bg_escape 0 0 0 = bytes_of ([ESC] @ ''[48;2;0;0;0m'') \<and>
   bg_missing \<noteq> bg_escape 0 0 0"
  by (intro conjI) code_simp+

subsection \<open>The IMU provider\<close>

lemma newIMUPeripheral_fails_iff:
  "newIMUPeripheral prefix address resp = Inl err \<longleftrightarrow>
   fst (getJson resp zero_imuDataType) = Some err"
  by (auto simp: newIMUPeripheral_def Let_def split: prod.splits option.splits)

lemma newIMUPeripheral_channels:
  "newIMUPeripheral prefix address resp = Inr i \<Longrightarrow>
   closed i = OpenChan \<and> loopClosed i = OpenChan \<and>
   currentValue i = snd (getJson resp zero_imuDataType)"
  by (auto simp: newIMUPeripheral_def Let_def split: prod.splits option.splits)

subsection \<open>The snapshot is never seen half-written\<close>

lemma agree_except_all: "agree_except imu_fields a b"
  by (simp add: agree_except_def imu_fields_def)

lemma agree_except_none: "agree_except [] a b \<longleftrightarrow> a = b"
  by (auto simp: agree_except_def)

lemma agree_except_copy:
  "agree_except (f # fs) dst src \<Longrightarrow> agree_except fs (copy_field f src dst) src"
  by (cases f) (auto simp: agree_except_def)

lemma poll_loop_step_inv:
  assumes "memory_inv v0 s"
  shows "memory_inv v0 (poll_loop_step resp s)"
proof (cases "poll_at s")
  case Q_fetch
  with assms show ?thesis
    by (cases "getJson resp (reading s)")
      (auto simp: memory_inv_def poll_loop_step_def)
next
  case Q_lock
  with assms show ?thesis
    by (auto simp: memory_inv_def poll_loop_step_def agree_except_all)
next
  case (Q_copy fs)
  show ?thesis
  proof (cases fs)
    case Nil
    with Q_copy assms show ?thesis
      by (auto simp: memory_inv_def poll_loop_step_def agree_except_none)
  next
    case (Cons f fs')
    with Q_copy assms show ?thesis
      by (auto simp: memory_inv_def poll_loop_step_def agree_except_copy)
  qed
next
  case Q_sleep
  with assms show ?thesis
    by (auto simp: memory_inv_def poll_loop_step_def)
qed

lemma PreRender_step_inv:
  assumes "memory_inv v0 s"
  shows "memory_inv v0 (PreRender_step s)"
proof (cases "render_at s")
  case R_idle
  with assms show ?thesis
    by (auto simp: memory_inv_def PreRender_step_def)
next
  case R_lock
  with assms show ?thesis
    by (auto simp: memory_inv_def PreRender_step_def agree_except_all)
next
  case (R_read fs)
  show ?thesis
  proof (cases fs)
    case Nil
    with R_read assms show ?thesis
      by (auto simp: memory_inv_def PreRender_step_def agree_except_none)
  next
    case (Cons f fs')
    with R_read assms show ?thesis
      by (auto simp: memory_inv_def PreRender_step_def agree_except_copy)
  qed
next
  case R_return
  with assms show ?thesis
    by (auto simp: memory_inv_def PreRender_step_def)
qed

lemma memory_run_inv:
  "memory_inv v0 s \<Longrightarrow> memory_inv v0 (memory_run schedule s)"
  unfolding memory_run_def
proof (induction schedule arbitrary: s)
  case Nil
  then show ?case by simp
next
  case (Cons e es)
  then have "memory_inv v0 (memory_step e s)"
    by (cases e) (simp_all add: poll_loop_step_inv PreRender_step_inv)
  with Cons.IH show ?case by simp
qed

lemma memory_started_inv: "memory_inv (currentValue i) (memory_started i)"
  by (simp add: memory_inv_def memory_started_def)

lemma snapshot_complete:
  assumes "render_at (memory_run schedule (memory_started i)) = R_return"
  shows "seen (memory_run schedule (memory_started i)) \<in>
           insert (currentValue i) (set (fetched (memory_run schedule (memory_started i))))"
  using memory_run_inv [OF memory_started_inv, of i schedule] assms
  by (auto simp: memory_inv_def)

lemma snapshot_latest:
  assumes "render_at (memory_run schedule (memory_started i)) = R_read []"
  shows "seen (memory_run schedule (memory_started i)) =
           hd (written (memory_run schedule (memory_started i)))"
  using memory_run_inv [OF memory_started_inv, of i schedule] assms
  by (auto simp: memory_inv_def agree_except_none)

lemma copy_all_fields:
  "copy_field F_Shake r (copy_field F_Quaternione r (copy_field F_Magnetometer r
     (copy_field F_Gyro r (copy_field F_Acceleration r v)))) = r"
  by simp

lemma poll_loop_iteration:
  assumes "poll_at s = Q_fetch" and "currentValueLock s = None"
  shows "\<exists>n. poll_at (memory_run (replicate (Suc n) (Loop_goes resp)) s) = Q_fetch \<and>
     (reading (memory_run (replicate (Suc n) (Loop_goes resp)) s),
      provider (memory_run (replicate (Suc n) (Loop_goes resp)) s)) =
       poll resp (reading s, provider s)"
proof (cases "getJson resp (reading s)")
  case (Pair err r)
  show ?thesis
  proof (cases err)
    case None
    with Pair assms show ?thesis
      by (intro exI [of _ 8])
        (simp add: memory_run_def poll_loop_step_def poll_def imu_fields_def eval_nat_numeral)
  next
    case (Some e)
    with Pair assms show ?thesis
      by (intro exI [of _ 1])
        (simp add: memory_run_def poll_loop_step_def poll_def eval_nat_numeral)
  qed
qed

lemma newest_written:
  assumes "memory_inv v0 s"
  shows "hd (written s) \<in> insert v0 (set (fetched s))"
proof -
  from assms have "written s \<noteq> []" and "set (written s) \<subseteq> insert v0 (set (fetched s))"
    by (simp_all add: memory_inv_def)
  then show ?thesis
    by (cases "written s") auto
qed

text \<open>
  Claim C6. Constructing the IMU provider makes one fetch and fails with the fetch's
  error exactly when that fetch fails. In an iteration of the poll loop a successful
  fetch replaces the snapshot by the new reading, and a failed fetch leaves the whole
  provider, snapshot included, as it was; an iteration yields no error, only the next
  state. The replacement is atomic for the render path: under every interleaving of
  the loop with \<^verbatim>\<open>PreRender\<close>, when \<^verbatim>\<open>PreRender\<close> has read all fields and still holds the
  lock, what it has seen is the newest completely written value, and that is the value
  from the construction or the reading of a fetch that succeeded.
\<close>

theorem IMU_fetch_policy:
  "(newIMUPeripheral prefix address resp = Inl err \<longleftrightarrow>
      fst (getJson resp zero_imuDataType) = Some err) \<and>
   (newIMUPeripheral prefix address resp = Inr i \<longrightarrow>
      fst (getJson resp zero_imuDataType) = None \<and>
      currentValue i = snd (getJson resp zero_imuDataType)) \<and>
   (fst (getJson resp' r) = None \<longrightarrow>
      poll resp' (r, v) =
        (snd (getJson resp' r), v\<lparr>currentValue := snd (getJson resp' r)\<rparr>)) \<and>
   (fst (getJson resp' r) = Some err' \<longrightarrow>
      poll resp' (r, v) = (snd (getJson resp' r), v)) \<and>
   (render_at (memory_run schedule (memory_started v)) = R_read [] \<longrightarrow>
      seen (memory_run schedule (memory_started v)) =
        hd (written (memory_run schedule (memory_started v))) \<and>
      hd (written (memory_run schedule (memory_started v))) \<in>
        insert (currentValue v) (set (fetched (memory_run schedule (memory_started v)))))"
proof (intro conjI impI)
  show "newIMUPeripheral prefix address resp = Inl err \<longleftrightarrow>
      fst (getJson resp zero_imuDataType) = Some err"
    by (rule newIMUPeripheral_fails_iff)
next
  assume ok: "newIMUPeripheral prefix address resp = Inr i"
  then show "currentValue i = snd (getJson resp zero_imuDataType)"
    by (simp add: newIMUPeripheral_channels)
  from ok show "fst (getJson resp zero_imuDataType) = None"
    by (auto simp: newIMUPeripheral_def Let_def split: prod.splits option.splits)
next
  assume "fst (getJson resp' r) = None"
  then show "poll resp' (r, v) =
      (snd (getJson resp' r), v\<lparr>currentValue := snd (getJson resp' r)\<rparr>)"
    by (cases "getJson resp' r") (simp add: poll_def)
next
  assume "fst (getJson resp' r) = Some err'"
  then show "poll resp' (r, v) = (snd (getJson resp' r), v)"
    by (cases "getJson resp' r") (simp add: poll_def)
next
  assume "render_at (memory_run schedule (memory_started v)) = R_read []"
  then show "seen (memory_run schedule (memory_started v)) =
      hd (written (memory_run schedule (memory_started v)))"
    by (rule snapshot_latest)
next
  show "hd (written (memory_run schedule (memory_started v))) \<in>
      insert (currentValue v) (set (fetched (memory_run schedule (memory_started v))))"
    by (rule newest_written) (rule memory_run_inv [OF memory_started_inv])
qed

theorem IMU_fetch_policy_witness:
  "newIMUPeripheral ''imu'' ''http://imu/'' (Unreachable (Error ''refused'') :: int response) =
     Inl (Error ''refused'') \<and>
   newIMUPeripheral ''imu'' ''http://imu/'' (Body (\<lambda>t. (None, reading1))) =
     Inr \<lparr>uniformNamePrefix = ''imu'', url = ''http://imu/'', currentValue = reading1,
          closed = OpenChan, loopClosed = OpenChan\<rparr> \<and>
   poll (Body (\<lambda>t. (None, reading1)))
       (zero_imuDataType, \<lparr>uniformNamePrefix = ''imu'', url = ''http://imu/'',
          currentValue = zero_imuDataType, closed = OpenChan, loopClosed = OpenChan\<rparr>) =
     (reading1, \<lparr>uniformNamePrefix = ''imu'', url = ''http://imu/'', currentValue = reading1,
          closed = OpenChan, loopClosed = OpenChan\<rparr>) \<and>
   poll (Body (\<lambda>t. (Some (Error ''bad json''), t\<lparr>Shake := True\<rparr>)))
       (zero_imuDataType, \<lparr>uniformNamePrefix = ''imu'', url = ''http://imu/'',
          currentValue = reading1, closed = OpenChan, loopClosed = OpenChan\<rparr>) =
     (zero_imuDataType\<lparr>Shake := True\<rparr>, \<lparr>uniformNamePrefix = ''imu'', url = ''http://imu/'',
          currentValue = reading1, closed = OpenChan, loopClosed = OpenChan\<rparr>) \<and>
   render_at (memory_run
       (replicate 2 (Loop_goes (Body (\<lambda>t. (None, reading1)))) @ [Render_goes] @
        replicate 5 (Loop_goes (Body (\<lambda>t. (None, reading1)))) @ [Render_goes] @
        [Loop_goes (Body (\<lambda>t. (None, reading1)))] @ replicate 6 Render_goes)
       (memory_started \<lparr>uniformNamePrefix = ''imu'', url = ''http://imu/'',
          currentValue = zero_imuDataType, closed = OpenChan, loopClosed = OpenChan\<rparr>)) =
     R_read [] \<and>
   seen (memory_run
       (replicate 2 (Loop_goes (Body (\<lambda>t. (None, reading1)))) @ [Render_goes] @
        replicate 5 (Loop_goes (Body (\<lambda>t. (None, reading1)))) @ [Render_goes] @
        [Loop_goes (Body (\<lambda>t. (None, reading1)))] @ replicate 6 Render_goes)
       (memory_started \<lparr>uniformNamePrefix = ''imu'', url = ''http://imu/'',
          currentValue = zero_imuDataType, closed = OpenChan, loopClosed = OpenChan\<rparr>)) =
     reading1"
proof -
  let ?v = "\<lparr>uniformNamePrefix = ''imu'', url = ''http://imu/'',
      currentValue = zero_imuDataType :: int imuDataType, closed = OpenChan, loopClosed = OpenChan\<rparr>"
  let ?schedule = "replicate 2 (Loop_goes (Body (\<lambda>t. (None, reading1)))) @ [Render_goes] @
      replicate 5 (Loop_goes (Body (\<lambda>t. (None, reading1)))) @ [Render_goes] @
      [Loop_goes (Body (\<lambda>t. (None, reading1)))] @ replicate 6 Render_goes"
  have new: "newIMUPeripheral ''imu'' ''http://imu/'' (Body (\<lambda>t. (None, reading1))) =
     Inr \<lparr>uniformNamePrefix = ''imu'', url = ''http://imu/'', currentValue = reading1,
          closed = OpenChan, loopClosed = OpenChan\<rparr>"
    by (simp add: newIMUPeripheral_def Let_def)
  have at: "render_at (memory_run ?schedule (memory_started ?v)) = R_read []"
    by (simp add: memory_run_def memory_started_def poll_loop_step_def PreRender_step_def
        imu_fields_def eval_nat_numeral)
  have hd: "hd (written (memory_run ?schedule (memory_started ?v))) = reading1"
    by (simp add: memory_run_def memory_started_def poll_loop_step_def PreRender_step_def
        imu_fields_def eval_nat_numeral)
  show ?thesis
    using new at hd
      IMU_fetch_policy [where resp = "Unreachable (Error ''refused'') :: int response"
        and prefix = "''imu''" and address = "''http://imu/''" and err = "Error ''refused''"
        and resp' = "Body (\<lambda>t. (None, reading1))" and r = zero_imuDataType
        and v = ?v and schedule = ?schedule]
      IMU_fetch_policy [where resp = "Body (\<lambda>t. (None, reading1))"
        and prefix = "''imu''" and address = "''http://imu/''"
        and resp' = "Body (\<lambda>t. (Some (Error ''bad json''), t\<lparr>Shake := True\<rparr>))"
        and r = "zero_imuDataType :: int imuDataType" and err' = "Error ''bad json''"
        and v = "\<lparr>uniformNamePrefix = ''imu'', url = ''http://imu/'',
          currentValue = reading1, closed = OpenChan, loopClosed = OpenChan\<rparr>"
        and schedule = "[]"]
    by simp
qed

subsection \<open>Closing a provider\<close>

lemma IMU_step_blocked:
  assumes "closed (imu s) \<noteq> NilChan" "loopClosed (imu s) = OpenChan" "close_at s \<noteq> Close_returned"
  shows "closed (imu (IMU_step e s)) \<noteq> NilChan \<and> loopClosed (imu (IMU_step e s)) = OpenChan \<and>
         close_at (IMU_step e s) \<noteq> Close_returned"
proof (cases e)
  case (Poll resp)
  with assms show ?thesis
    by (simp add: poll_def split: prod.splits)
next
  case Close_step
  with assms show ?thesis
    by (cases "close_at s") (simp_all add: IMU_Close_step_def)
qed

lemma IMU_run_blocked:
  "closed (imu s) \<noteq> NilChan \<Longrightarrow> loopClosed (imu s) = OpenChan \<Longrightarrow>
   close_at s \<noteq> Close_returned \<Longrightarrow> close_at (IMU_run schedule s) \<noteq> Close_returned"
  unfolding IMU_run_def
proof (induction schedule arbitrary: s)
  case Nil
  then show ?case by simp
next
  case (Cons e es)
  from IMU_step_blocked [OF Cons.prems, of e] Cons.IH [of "IMU_step e s"]
  show ?case by simp
qed

lemma IMU_Close_blocks:
  assumes "newIMUPeripheral prefix address resp = Inr i"
  shows "close_at (IMU_run schedule (IMU_started i)) \<noteq> Close_returned"
  using newIMUPeripheral_channels [OF assms]
  by (intro IMU_run_blocked) (simp_all add: IMU_started_def)

lemma kinect_step_safe:
  assumes "kin_close_at s = Close_returned \<longrightarrow> loop_at s = Loop_exited"
    and "kin_loopClosed s = ClosedChan \<longrightarrow> loop_at s = Loop_exited"
  shows "(kin_close_at (kinect_step e s) = Close_returned \<longrightarrow> loop_at (kinect_step e s) = Loop_exited) \<and>
         (kin_loopClosed (kinect_step e s) = ClosedChan \<longrightarrow> loop_at (kinect_step e s) = Loop_exited)"
proof (cases e)
  case (Loop_step events)
  with assms show ?thesis
    by (cases "loop_at s") (simp_all add: freenectLoop_step_def)
next
  case Kinect_Close_step
  with assms show ?thesis
    by (cases "kin_close_at s") (simp_all add: kinect_Close_step_def)
qed

lemma kinect_Close_after_exit:
  "kin_close_at (kinect_run schedule kinect_opened) = Close_returned \<Longrightarrow>
   loop_at (kinect_run schedule kinect_opened) = Loop_exited"
proof -
  have "(kin_close_at (fold kinect_step schedule s) = Close_returned \<longrightarrow>
          loop_at (fold kinect_step schedule s) = Loop_exited) \<and>
        (kin_loopClosed (fold kinect_step schedule s) = ClosedChan \<longrightarrow>
          loop_at (fold kinect_step schedule s) = Loop_exited)"
    if "kin_close_at s = Close_returned \<longrightarrow> loop_at s = Loop_exited"
      and "kin_loopClosed s = ClosedChan \<longrightarrow> loop_at s = Loop_exited" for s
    using that
  proof (induction schedule arbitrary: s)
    case Nil
    then show ?case by simp
  next
    case (Cons e es)
    from kinect_step_safe [OF Cons.prems, of e] Cons.IH [of "kinect_step e s"]
    show ?case by simp
  qed
  from this [of kinect_opened] show "kin_close_at (kinect_run schedule kinect_opened) = Close_returned \<Longrightarrow>
   loop_at (kinect_run schedule kinect_opened) = Loop_exited"
    by (simp add: kinect_run_def kinect_opened_def)
qed

lemma kinect_step_inv:
  assumes "kin_close_at s \<noteq> Close_entry \<longrightarrow> kin_closed s = ClosedChan"
    and "loop_at s = Loop_exited \<longrightarrow> kin_loopClosed s = ClosedChan"
  shows "(kin_close_at (kinect_step e s) \<noteq> Close_entry \<longrightarrow> kin_closed (kinect_step e s) = ClosedChan) \<and>
         (loop_at (kinect_step e s) = Loop_exited \<longrightarrow> kin_loopClosed (kinect_step e s) = ClosedChan)"
proof (cases e)
  case (Loop_step events)
  with assms show ?thesis
    by (cases "loop_at s") (simp_all add: freenectLoop_step_def)
next
  case Kinect_Close_step
  with assms show ?thesis
    by (cases "kin_close_at s") (simp_all add: kinect_Close_step_def)
qed

lemma kinect_run_inv:
  assumes "kin_close_at s \<noteq> Close_entry \<longrightarrow> kin_closed s = ClosedChan"
    and "loop_at s = Loop_exited \<longrightarrow> kin_loopClosed s = ClosedChan"
  shows "(kin_close_at (kinect_run schedule s) \<noteq> Close_entry \<longrightarrow>
            kin_closed (kinect_run schedule s) = ClosedChan) \<and>
         (loop_at (kinect_run schedule s) = Loop_exited \<longrightarrow>
            kin_loopClosed (kinect_run schedule s) = ClosedChan)"
  using assms unfolding kinect_run_def
proof (induction schedule arbitrary: s)
  case Nil
  then show ?case by simp
next
  case (Cons e es)
  from kinect_step_inv [OF Cons.prems, of e] Cons.IH [of "kinect_step e s"]
  show ?case by simp
qed

lemma kinect_Close_returns_from:
  assumes "kin_close_at s \<noteq> Close_entry \<longrightarrow> kin_closed s = ClosedChan"
    and "loop_at s = Loop_exited \<longrightarrow> kin_loopClosed s = ClosedChan"
  shows "kin_close_at (kinect_run
           [Kinect_Close_step, Loop_step a, Loop_step b, Loop_step c, Kinect_Close_step] s) =
         Close_returned"
  using assms
  by (cases "loop_at s"; cases "kin_close_at s")
    (simp_all add: kinect_run_def freenectLoop_step_def kinect_Close_step_def)

lemma kinect_Close_returns:
  "kin_close_at (kinect_run
     (schedule @ [Kinect_Close_step, Loop_step a, Loop_step b, Loop_step c, Kinect_Close_step])
     kinect_opened) = Close_returned"
proof -
  have "kinect_run
     (schedule @ [Kinect_Close_step, Loop_step a, Loop_step b, Loop_step c, Kinect_Close_step])
     kinect_opened =
    kinect_run [Kinect_Close_step, Loop_step a, Loop_step b, Loop_step c, Kinect_Close_step]
      (kinect_run schedule kinect_opened)"
    by (simp add: kinect_run_def)
  moreover have "kin_close_at (kinect_run schedule kinect_opened) \<noteq> Close_entry \<longrightarrow>
      kin_closed (kinect_run schedule kinect_opened) = ClosedChan"
    and "loop_at (kinect_run schedule kinect_opened) = Loop_exited \<longrightarrow>
      kin_loopClosed (kinect_run schedule kinect_opened) = ClosedChan"
    using kinect_run_inv [of kinect_opened schedule] by (simp_all add: kinect_opened_def)
  ultimately show ?thesis
    by (simp only: kinect_Close_returns_from)
qed

text \<open>
  Claim C1, evaluated on the code. After a successful construction of the IMU provider
  the background loop runs, and \<^verbatim>\<open>Close\<close> closes \<open>closed\<close> and then waits for
  \<open>loopClosed\<close>, which the loop never closes: under every schedule of loop iterations
  and \<^verbatim>\<open>Close\<close> steps, whatever the endpoint answers, \<^verbatim>\<open>Close\<close> has not returned. The
  Kinect provider's \<^verbatim>\<open>Close\<close> does return, as soon as its loop has had three more steps.
\<close>

theorem IMU_Close_never_returns:
  "newIMUPeripheral ''imu'' ''http://imu/'' (Body (\<lambda>t. (None, reading1))) =
     Inr \<lparr>uniformNamePrefix = ''imu'', url = ''http://imu/'', currentValue = reading1,
          closed = OpenChan, loopClosed = OpenChan\<rparr> \<and>
   (\<forall>schedule.
      close_at (IMU_run schedule
        (IMU_started \<lparr>uniformNamePrefix = ''imu'', url = ''http://imu/'', currentValue = reading1,
           closed = OpenChan, loopClosed = OpenChan\<rparr>)) \<noteq> Close_returned) \<and>
   close_at (IMU_run [Close_step, Poll (Body (\<lambda>t. (None, reading1))), Close_step,
        Poll (Unreachable (Error ''refused'')), Close_step]
      (IMU_started \<lparr>uniformNamePrefix = ''imu'', url = ''http://imu/'', currentValue = reading1,
           closed = OpenChan, loopClosed = OpenChan\<rparr>)) = Close_waiting \<and>
   kin_close_at (kinect_run
       [Kinect_Close_step, Loop_step 0, Loop_step 0, Loop_step 0, Kinect_Close_step]
       kinect_opened) = Close_returned"
proof (intro conjI allI)
  show new: "newIMUPeripheral ''imu'' ''http://imu/'' (Body (\<lambda>t. (None, reading1))) =
     Inr \<lparr>uniformNamePrefix = ''imu'', url = ''http://imu/'', currentValue = reading1,
          closed = OpenChan, loopClosed = OpenChan\<rparr>"
    by (simp add: newIMUPeripheral_def Let_def)
  show "close_at (IMU_run schedule
        (IMU_started \<lparr>uniformNamePrefix = ''imu'', url = ''http://imu/'', currentValue = reading1,
           closed = OpenChan, loopClosed = OpenChan\<rparr>)) \<noteq> Close_returned" for schedule
    by (rule IMU_Close_blocks [OF new])
  show "close_at (IMU_run [Close_step, Poll (Body (\<lambda>t. (None, reading1))), Close_step,
        Poll (Unreachable (Error ''refused'')), Close_step]
      (IMU_started \<lparr>uniformNamePrefix = ''imu'', url = ''http://imu/'', currentValue = reading1,
           closed = OpenChan, loopClosed = OpenChan\<rparr>)) = Close_waiting"
    by (simp add: IMU_run_def IMU_started_def IMU_Close_step_def poll_def)
  show "kin_close_at (kinect_run
       [Kinect_Close_step, Loop_step 0, Loop_step 0, Loop_step 0, Kinect_Close_step]
       kinect_opened) = Close_returned"
    using kinect_Close_returns [of "[]"] by simp
qed

subsection \<open>The animation pipeline\<close>

lemma pipeline_run_stuck:
  assumes "\<And>e. pipeline_step e s = s"
  shows "pipeline_run schedule s = s"
  unfolding pipeline_run_def by (induction schedule) (simp_all add: assms)

lemma pipeline_run_append:
  "pipeline_run (xs @ ys) s = pipeline_run ys (pipeline_run xs s)"
  by (simp add: pipeline_run_def)

lemma session_inv: "pipeline_inv limit (session cap limit)"
  by (simp add: pipeline_inv_def session_def)

lemma upt_Cons_eq: "x # rest = [a ..< b] \<Longrightarrow> x = a \<and> rest = [Suc a ..< b]"
  by (cases "a < b") (simp_all add: upt_conv_Cons)

lemma counter_recv_inv:
  assumes "imgStream_s = [fr ..< fr + length imgStream_s]" and "imgStream_s = img # rest"
  shows "img = fr \<and> rest = [Suc fr ..< Suc fr + length rest]"
  using upt_Cons_eq [of img rest fr "fr + length imgStream_s"] assms by simp

lemma producer_step_inv:
  assumes "pipeline_inv limit s"
  shows "pipeline_inv limit (producer_step s)"
proof (cases "producer_at s")
  case P_poll
  with assms show ?thesis
    by (auto simp: pipeline_inv_def producer_step_def split: counter_pc.splits if_splits)
next
  case (P_send img)
  with assms show ?thesis
    by (auto simp: pipeline_inv_def producer_step_def split: counter_pc.splits if_splits)
next
  case P_close
  with assms show ?thesis
    by (auto simp: pipeline_inv_def producer_step_def split: counter_pc.splits if_splits)
next
  case P_wait
  with assms show ?thesis
    by (auto simp: pipeline_inv_def producer_step_def split: counter_pc.splits if_splits)
next
  case P_exit
  with assms show ?thesis
    by (auto simp: pipeline_inv_def producer_step_def split: counter_pc.splits if_splits)
qed

lemma counter_step_inv:
  assumes "pipeline_inv limit s"
  shows "pipeline_inv limit (counter_step s)"
proof (cases "counter_at s")
  case C_recv
  show ?thesis
  proof (cases "imgStream s")
    case Nil
    with C_recv assms show ?thesis
      by (auto simp: pipeline_inv_def counter_step_def split: producer_pc.splits if_splits)
  next
    case (Cons img rest)
    from assms have "imgStream s = [frame s ..< frame s + length (imgStream s)]"
      by (simp add: pipeline_inv_def)
    from counter_recv_inv [OF this Cons]
    have img: "img = frame s" and rest: "rest = [Suc (frame s) ..< Suc (frame s) + length rest]"
      by simp_all
    have len: "length (imgStream s) = Suc (length rest)"
      by (simp add: Cons)
    have step: "counter_step s = s\<lparr>imgStream := rest, frame := Suc (frame s), counter_at := C_send (frame s)\<rparr>"
      by (simp add: counter_step_def C_recv Cons img)
    from assms have inv: "animateNumFrames s = limit"
      "received s = [0 ..< length (received s)]"
      "case producer_at s of
         P_send k \<Rightarrow> produced s = Suc k \<and> k = frame s + length (imgStream s)
       | _ \<Rightarrow> produced s = frame s + length (imgStream s)"
      "length (received s) \<le> frame s"
      "encoder_at s = E_recv \<longrightarrow> length (received s) = frame s"
      "0 < limit \<longrightarrow> frame s < limit"
      "draining s \<longrightarrow> encoder_at s = E_finish \<or> encoder_at s = E_done"
      "waitgroup s = 1 + (if encoder_at s = E_done then 0 else 1)"
      "producer_at s = P_exit \<longrightarrow> waitgroup s = 0"
      by (auto simp: pipeline_inv_def C_recv)
    show ?thesis
      unfolding step pipeline_inv_def
      using inv rest by (cases "producer_at s") (simp_all add: len Suc_le_eq)
  qed
next
  case (C_send img)
  with assms show ?thesis
    by (simp add: counter_step_def)
next
  case C_limit
  with assms show ?thesis
    by (auto simp: pipeline_inv_def counter_step_def split: producer_pc.splits if_splits)
next
  case C_finish
  with assms show ?thesis
    by (auto simp: pipeline_inv_def counter_step_def split: producer_pc.splits if_splits)
next
  case C_closing
  with assms show ?thesis
    by (auto simp: pipeline_inv_def counter_step_def split: producer_pc.splits if_splits)
next
  case C_done
  with assms show ?thesis
    by (simp add: counter_step_def)
qed

lemma encoder_step_inv:
  assumes "pipeline_inv limit s"
  shows "pipeline_inv limit (encoder_step fails s)"
proof (cases "encoder_at s")
  case E_recv
  show ?thesis
  proof (cases "counter_at s")
    case (C_send img)
    from assms E_recv C_send have len: "length (received s) = img" and fr: "frame s = Suc img"
      and rec: "received s = [0 ..< length (received s)]"
      by (auto simp: pipeline_inv_def)
    have "received s @ [img] = [0 ..< Suc img]"
      using rec len by simp
    with assms E_recv C_send len fr show ?thesis
      by (cases "producer_at s")
        (auto simp: pipeline_inv_def encoder_step_def)
  next
    case C_recv
    with assms E_recv show ?thesis
      by (auto simp: pipeline_inv_def encoder_step_def split: producer_pc.splits if_splits)
  next
    case C_limit
    with assms E_recv show ?thesis
      by (auto simp: pipeline_inv_def encoder_step_def split: producer_pc.splits if_splits)
  next
    case C_finish
    with assms E_recv show ?thesis
      by (auto simp: pipeline_inv_def encoder_step_def split: producer_pc.splits if_splits)
  next
    case C_closing
    with assms E_recv show ?thesis
      by (auto simp: pipeline_inv_def encoder_step_def split: producer_pc.splits if_splits)
  next
    case C_done
    with assms E_recv show ?thesis
      by (auto simp: pipeline_inv_def encoder_step_def split: producer_pc.splits if_splits)
  qed
next
  case E_failed
  with assms show ?thesis
    by (auto simp: pipeline_inv_def encoder_step_def split: producer_pc.splits counter_pc.splits if_splits)
next
  case E_finish
  with assms show ?thesis
    by (auto simp: pipeline_inv_def encoder_step_def split: producer_pc.splits counter_pc.splits if_splits)
next
  case E_done
  with assms show ?thesis
    by (simp add: encoder_step_def)
qed

lemma drain_step_inv:
  assumes "pipeline_inv limit s"
  shows "pipeline_inv limit (drain_step s)"
proof (cases "draining s")
  case False
  with assms show ?thesis by (simp add: drain_step_def)
next
  case True
  show ?thesis
  proof (cases "counter_at s")
    case (C_send img)
    with assms True show ?thesis
      by (auto simp: pipeline_inv_def drain_step_def split: producer_pc.splits if_splits)
  qed (use assms True in \<open>auto simp: pipeline_inv_def drain_step_def
        split: producer_pc.splits if_splits\<close>)
qed

lemma pipeline_step_inv:
  assumes "pipeline_inv limit s"
  shows "pipeline_inv limit (pipeline_step e s)"
proof (cases e)
  case Interrupt
  with assms show ?thesis
    by (auto simp: pipeline_inv_def split: producer_pc.splits counter_pc.splits if_splits)
qed (simp_all add: assms producer_step_inv counter_step_inv encoder_step_inv drain_step_inv)

lemma pipeline_run_inv: "pipeline_inv limit (pipeline_run schedule (session cap limit))"
proof -
  have "pipeline_inv limit (fold pipeline_step schedule s)" if "pipeline_inv limit s" for s
    using that by (induction schedule arbitrary: s) (simp_all add: pipeline_step_inv)
  from this [OF session_inv] show ?thesis
    by (simp add: pipeline_run_def)
qed

lemma pipeline_frames_in_order:
  "received (pipeline_run schedule (session cap limit)) =
     [0 ..< length (received (pipeline_run schedule (session cap limit)))]"
  using pipeline_run_inv [of limit schedule cap] by (simp add: pipeline_inv_def)

lemma pipeline_limit_respected:
  assumes "0 < limit"
  shows "length (received (pipeline_run schedule (session cap limit))) \<le> limit"
proof -
  let ?s = "pipeline_run schedule (session cap limit)"
  from pipeline_run_inv [of limit schedule cap] assms
  have "frame ?s \<le> limit" and "length (received ?s) \<le> frame ?s"
    by (auto simp: pipeline_inv_def split: counter_pc.splits)
  then show ?thesis by simp
qed

lemma pipeline_exit_after_stages:
  assumes "producer_at (pipeline_run schedule (session cap limit)) = P_exit"
  shows "encoder_at (pipeline_run schedule (session cap limit)) = E_done \<and>
         (counter_at (pipeline_run schedule (session cap limit)) = C_closing \<or>
          counter_at (pipeline_run schedule (session cap limit)) = C_done)"
  using pipeline_run_inv [of limit schedule cap] assms
  by (auto simp: pipeline_inv_def split: if_splits)

text \<open>
  Claim C2, evaluated on the code, with the producer as the spec describes it. The
  session has \<open>imgStream\<close> of capacity 2 (\<^verbatim>\<open>-framerate 1\<close>) and a limit of one frame
  (\<^verbatim>\<open>-numframes 1\<close>). The producer renders four frames before the encoder takes the
  first: frames 1 and 2 fill \<open>imgStream\<close> and the producer stands at the send of frame
  3. The counter forwards frame 0, reaches the limit, calls \<^verbatim>\<open>cancel()\<close> and leaves its
  loop; the encoder sees the end of its stream and finishes. Nobody receives from
  \<open>imgStream\<close> any more: every further step of every goroutine, and the interrupt,
  leave the state as it is, and under every continuation the producer stays at its
  send, so \<^verbatim>\<open>sh.Animate\<close> does not return. With the producer one frame ahead only, the
  same session ends with the one frame encoded.
\<close>

theorem pipeline_limit_deadlock:
  "pipeline_run
     [Producer, Producer, Counter, Producer, Producer, Producer, Producer, Producer,
      Encoder False, Counter, Counter, Counter, Encoder False, Encoder False]
     (session 2 1) =
     \<lparr>capacity = 2, animateNumFrames = 1, cancelled = True, imgStream = [1, 2],
      imgStream_closed = False, counterStream_closed = True, produced = 4, frame = 1,
      received = [0], draining = False, waitgroup = 0, producer_at = P_send 3,
      counter_at = C_done, encoder_at = E_done\<rparr> \<and>
   (\<forall>schedule.
      producer_at (pipeline_run
        ([Producer, Producer, Counter, Producer, Producer, Producer, Producer, Producer,
          Encoder False, Counter, Counter, Counter, Encoder False, Encoder False] @ schedule)
        (session 2 1)) = P_send 3) \<and>
   pipeline_run
     [Producer, Producer, Counter, Encoder False, Counter, Counter, Counter, Encoder False,
      Encoder False, Producer, Producer, Producer]
     (session 2 1) =
     \<lparr>capacity = 2, animateNumFrames = 1, cancelled = True, imgStream = [],
      imgStream_closed = True, counterStream_closed = True, produced = 1, frame = 1,
      received = [0], draining = False, waitgroup = 0, producer_at = P_exit,
      counter_at = C_done, encoder_at = E_done\<rparr>"
proof (intro conjI allI)
  let ?dead = "\<lparr>capacity = 2, animateNumFrames = 1, cancelled = True, imgStream = [1, 2],
      imgStream_closed = False, counterStream_closed = True, produced = 4, frame = 1,
      received = [0], draining = False, waitgroup = 0, producer_at = P_send 3,
      counter_at = C_done, encoder_at = E_done\<rparr>"
  show reach: "pipeline_run
     [Producer, Producer, Counter, Producer, Producer, Producer, Producer, Producer,
      Encoder False, Counter, Counter, Counter, Encoder False, Encoder False]
     (session 2 1) = ?dead"
    by (simp add: pipeline_run_def session_def producer_step_def counter_step_def
        encoder_step_def)
  have stuck: "pipeline_step e ?dead = ?dead" for e
    by (cases e) (simp_all add: producer_step_def counter_step_def encoder_step_def drain_step_def)
  show "producer_at (pipeline_run
        ([Producer, Producer, Counter, Producer, Producer, Producer, Producer, Producer,
          Encoder False, Counter, Counter, Counter, Encoder False, Encoder False] @ schedule)
        (session 2 1)) = P_send 3" for schedule
    unfolding pipeline_run_append reach pipeline_run_stuck [OF stuck] by simp
  show "pipeline_run
     [Producer, Producer, Counter, Encoder False, Counter, Counter, Counter, Encoder False,
      Encoder False, Producer, Producer, Producer]
     (session 2 1) =
     \<lparr>capacity = 2, animateNumFrames = 1, cancelled = True, imgStream = [],
      imgStream_closed = True, counterStream_closed = True, produced = 1, frame = 1,
      received = [0], draining = False, waitgroup = 0, producer_at = P_exit,
      counter_at = C_done, encoder_at = E_done\<rparr>"
    by (simp add: pipeline_run_def session_def producer_step_def counter_step_def
        encoder_step_def)
qed

end
